theory Spec2Isabelle
  imports Complex_Main "HOL-Library.AList"
begin

section \<open>Python values, errors and loops\<close>

text \<open>
  The script is Python run inside Blender.  Python floats are idealised as exact
  rationals (no rounding error, no NaN, no infinity); Python ints are \<open>int\<close>; strings
  are lists of (ASCII) characters.  Every exception the script can meet is a value of
  \<open>py_error\<close>, and a fallible computation returns \<open>py_error + 'a\<close>.
\<close>

datatype py_error =
    ZeroDivisionError | ValueError | AttributeError | IndexError
  | KeyError | TypeError | RuntimeError | OSError

definition py_bind :: "py_error + 'a \<Rightarrow> ('a \<Rightarrow> py_error + 'b) \<Rightarrow> py_error + 'b" where
  "py_bind m f = (case m of Inl e \<Rightarrow> Inl e | Inr x \<Rightarrow> f x)"

text \<open>\<open>a / b\<close> on floats: division by zero raises.\<close>

definition py_div :: "rat \<Rightarrow> rat \<Rightarrow> py_error + rat" where
  "py_div a b = (if b = 0 then Inl ZeroDivisionError else Inr (a / b))"

text \<open>\<open>round(x)\<close> with one argument: the nearest integer, a tie going to the even one.\<close>

definition py_round :: "rat \<Rightarrow> int" where
  "py_round x =
     (let f = \<lfloor>x\<rfloor>; r = x - of_int f
      in if r < 1 / 2 then f
         else if 1 / 2 < r then f + 1
         else if even f then f else f + 1)"

text \<open>\<open>range(n)\<close>: empty when \<open>n \<le> 0\<close>.\<close>

definition py_range :: "int \<Rightarrow> int list" where
  "py_range n = [0..n - 1]"

text \<open>\<open>xs[i]\<close>: a negative index counts from the end, an index out of range raises.\<close>

definition py_index :: "'a list \<Rightarrow> int \<Rightarrow> py_error + 'a" where
  "py_index xs i =
     (if 0 \<le> i \<and> i < int (length xs) then Inr (xs ! nat i)
      else if i < 0 \<and> - int (length xs) \<le> i then Inr (xs ! nat (int (length xs) + i))
      else Inl IndexError)"

text \<open>\<open>for x in xs: body\<close> over a state, stopping at the first exception.\<close>

fun for_each :: "('a \<Rightarrow> 's \<Rightarrow> py_error + 's) \<Rightarrow> 'a list \<Rightarrow> 's \<Rightarrow> py_error + 's" where
  "for_each body [] s = Inr s"
| "for_each body (x # xs) s =
     (case body x s of Inl e \<Rightarrow> Inl e | Inr s' \<Rightarrow> for_each body xs s')"

text \<open>A list comprehension \<open>[f(x) for x in xs]\<close> whose \<open>f\<close> has a side effect on a state.\<close>

fun comprehension :: "('a \<Rightarrow> 's \<Rightarrow> 'b \<times> 's) \<Rightarrow> 'a list \<Rightarrow> 's \<Rightarrow> 'b list \<times> 's" where
  "comprehension f [] s = ([], s)"
| "comprehension f (x # xs) s =
     (case f x s of (y, s') \<Rightarrow>
        (case comprehension f xs s' of (ys, s'') \<Rightarrow> (y # ys, s'')))"


section \<open>The tessellator\<close>

definition PLANE_SUBDIVISION_SIZE :: rat where
  "PLANE_SUBDIVISION_SIZE = 1 / 5"

type_synonym vec3 = "rat \<times> rat \<times> rat"

text \<open>
  A BMesh: vertices in creation order (a vertex is identified by its index), faces in
  creation order, each face a list of loops (face corners), each loop carrying its
  vertex and its UV in the layer \<open>UVMap\<close> (initially \<open>(0, 0)\<close>).
\<close>

record bmvert =
  vert_index :: nat
  vert_co :: vec3

record bmloop =
  loop_vert :: bmvert
  loop_uv :: "rat \<times> rat"

record bmface =
  face_loops :: "bmloop list"

record bmesh =
  bm_verts :: "bmvert list"
  bm_faces :: "bmface list"
  bm_uv_layers :: "string list"

definition bmesh_new :: bmesh where
  "bmesh_new = \<lparr>bm_verts = [], bm_faces = [], bm_uv_layers = []\<rparr>"

definition uv_layer_new :: "string \<Rightarrow> bmesh \<Rightarrow> bmesh" where
  "uv_layer_new n bm = bm\<lparr>bm_uv_layers := bm_uv_layers bm @ [n]\<rparr>"

definition verts_new :: "vec3 \<Rightarrow> bmesh \<Rightarrow> bmvert \<times> bmesh" where
  "verts_new c bm =
     (let v = \<lparr>vert_index = length (bm_verts bm), vert_co = c\<rparr>
      in (v, bm\<lparr>bm_verts := bm_verts bm @ [v]\<rparr>))"

definition face_vert_ids :: "bmface \<Rightarrow> nat set" where
  "face_vert_ids f = set (map (vert_index \<circ> loop_vert) (face_loops f))"

text \<open>
  \<open>bm.faces.new(verts)\<close> raises \<open>ValueError\<close> when a vertex is repeated or a face on
  the same vertices exists; otherwise it appends the face and returns it (here: its
  index).  \<open>bm.faces.get(verts)\<close> returns the face on these vertices, or \<open>None\<close>.
\<close>

definition faces_new :: "bmvert list \<Rightarrow> bmesh \<Rightarrow> py_error + (nat \<times> bmesh)" where
  "faces_new vs bm =
     (if \<not> distinct (map vert_index vs)
         \<or> (\<exists>f \<in> set (bm_faces bm). face_vert_ids f = set (map vert_index vs))
      then Inl ValueError
      else Inr (length (bm_faces bm),
                bm\<lparr>bm_faces := bm_faces bm
                   @ [\<lparr>face_loops = map (\<lambda>v. \<lparr>loop_vert = v, loop_uv = (0, 0)\<rparr>) vs\<rparr>]\<rparr>))"

definition faces_get :: "bmvert list \<Rightarrow> bmesh \<Rightarrow> nat option" where
  "faces_get vs bm =
     find (\<lambda>i. face_vert_ids (bm_faces bm ! i) = set (map vert_index vs))
          [0..<length (bm_faces bm)]"

text \<open>Lines 113-117: the UV of one loop, from its vertex position and the bounds.\<close>

definition set_loop_uv :: "rat \<times> rat \<times> rat \<times> rat \<Rightarrow> bmloop \<Rightarrow> py_error + bmloop" where
  "set_loop_uv bounds l =
     (case bounds of (min_x, max_x, min_y, max_y) \<Rightarrow>
      case vert_co (loop_vert l) of (vx, vy, _) \<Rightarrow>
        py_bind (py_div (vx - min_x) (max_x - min_x)) (\<lambda>u.
        py_bind (py_div (vy - min_y) (max_y - min_y)) (\<lambda>v_uv.
        Inr (l\<lparr>loop_uv := (u, v_uv)\<rparr>))))"

fun set_face_uvs :: "rat \<times> rat \<times> rat \<times> rat \<Rightarrow> bmloop list \<Rightarrow> py_error + bmloop list" where
  "set_face_uvs bounds [] = Inr []"
| "set_face_uvs bounds (l # ls) =
     py_bind (set_loop_uv bounds l) (\<lambda>l'.
     py_bind (set_face_uvs bounds ls) (\<lambda>ls'. Inr (l' # ls')))"

text \<open>Lines 108-117: one triangle; \<open>try: new / except ValueError: get\<close>, then its UVs.\<close>

definition add_tri :: "rat \<times> rat \<times> rat \<times> rat \<Rightarrow> bmvert list \<Rightarrow> bmesh \<Rightarrow> py_error + bmesh" where
  "add_tri bounds tri bm =
     py_bind (case faces_new tri bm of
                Inr (i, bm') \<Rightarrow> Inr (Some i, bm')
              | Inl ValueError \<Rightarrow> Inr (faces_get tri bm, bm)
              | Inl e \<Rightarrow> Inl e) (\<lambda>(face, bm').
     case face of
       None \<Rightarrow> Inl AttributeError
     | Some i \<Rightarrow>
         py_bind (set_face_uvs bounds (face_loops (bm_faces bm' ! i))) (\<lambda>ls.
         Inr (bm'\<lparr>bm_faces := (bm_faces bm')[i := \<lparr>face_loops = ls\<rparr>]\<rparr>)))"

text \<open>Lines 101-117: one grid cell, split from top-left to bottom-right.\<close>

definition add_cell ::
  "bmvert list list \<Rightarrow> rat \<times> rat \<times> rat \<times> rat \<Rightarrow> int \<Rightarrow> int \<Rightarrow> bmesh \<Rightarrow> py_error + bmesh" where
  "add_cell verts_grid bounds y x bm =
     py_bind (py_index verts_grid y) (\<lambda>row.
     py_bind (py_index row x) (\<lambda>v0.
     py_bind (py_index row (x + 1)) (\<lambda>v1.
     py_bind (py_index verts_grid (y + 1)) (\<lambda>row'.
     py_bind (py_index row' x) (\<lambda>v2.
     py_bind (py_index row' (x + 1)) (\<lambda>v3.
     for_each (add_tri bounds) [[v0, v1, v2], [v1, v3, v2]] bm))))))"

text \<open>Lines 76-117: the geometry built by \<open>create_subdivided_plane_bmesh\<close>.\<close>

definition plane_bmesh :: "rat \<Rightarrow> rat \<Rightarrow> py_error + bmesh" where
  "plane_bmesh width height =
     py_bind (py_div width PLANE_SUBDIVISION_SIZE) (\<lambda>qx.
     py_bind (py_div height PLANE_SUBDIVISION_SIZE) (\<lambda>qy.
     let n_x = py_round qx;
         n_y = py_round qy;
         bounds = (- width / 2, width / 2, - height / 2, height / 2)
     in case comprehension (\<lambda>y.
               comprehension (\<lambda>x.
                 verts_new (of_int x * PLANE_SUBDIVISION_SIZE - width / 2,
                            of_int y * PLANE_SUBDIVISION_SIZE - height / 2,
                            0))
               (py_range (n_x + 1)))
             (py_range (n_y + 1)) bmesh_new of
          (verts_grid, bm) \<Rightarrow>
            for_each (\<lambda>y. for_each (\<lambda>x. add_cell verts_grid bounds y x) (py_range n_x))
                     (py_range n_y) (uv_layer_new ''UVMap'' bm)))"


section \<open>Strings\<close>

text \<open>\<open>s.isdigit()\<close>: non-empty and every character a decimal digit.\<close>

definition isdigit :: "string \<Rightarrow> bool" where
  "isdigit s \<longleftrightarrow> s \<noteq> [] \<and> (\<forall>c \<in> set s. c \<in> set ''0123456789'')"

definition digit_of :: "char \<Rightarrow> nat" where
  "digit_of c = of_char c - 48"

text \<open>\<open>int(s)\<close>, used by the script on digit-only strings only.\<close>

definition py_int :: "string \<Rightarrow> int" where
  "py_int s = foldl (\<lambda>a c. 10 * a + int (digit_of c)) 0 s"

definition digit_char :: "nat \<Rightarrow> char" where
  "digit_char d = ''0123456789'' ! d"

fun str_nat :: "nat \<Rightarrow> string" where
  "str_nat n = (if n < 10 then [digit_char n] else str_nat (n div 10) @ [digit_char (n mod 10)])"

text \<open>\<open>f"{i}"\<close> for an int.\<close>

definition py_str :: "int \<Rightarrow> string" where
  "py_str i = (if i < 0 then CHR ''-'' # str_nat (nat (- i)) else str_nat (nat i))"

text \<open>\<open>s.split(c)\<close> for a one-character separator: empty parts are kept.\<close>

fun split_on :: "char \<Rightarrow> string \<Rightarrow> string list" where
  "split_on c [] = [[]]"
| "split_on c (a # s) =
     (if a = c then [] # split_on c s
      else (case split_on c s of [] \<Rightarrow> [[a]] | p # ps \<Rightarrow> (a # p) # ps))"

definition startswith :: "string \<Rightarrow> string \<Rightarrow> bool" where
  "startswith s p \<longleftrightarrow> take (length p) s = p"

text \<open>\<open>a < b\<close> on strings: lexicographic by code point, a proper prefix being smaller.\<close>

fun str_less :: "string \<Rightarrow> string \<Rightarrow> bool" where
  "str_less [] [] = False"
| "str_less [] (b # bs) = True"
| "str_less (a # as) [] = False"
| "str_less (a # as) (b # bs) =
     (if a = b then str_less as bs else (of_char a :: nat) < of_char b)"

text \<open>
  \<open>sorted(xs, key=k)\<close>: a stable sort that only uses \<open><\<close> on keys.  \<open>lt a b\<close> is
  \<open>k(a) < k(b)\<close>; an element is placed after every element that is not greater.
\<close>

fun insort_lt :: "('a \<Rightarrow> 'a \<Rightarrow> bool) \<Rightarrow> 'a \<Rightarrow> 'a list \<Rightarrow> 'a list" where
  "insort_lt lt x [] = [x]"
| "insort_lt lt x (y # ys) = (if lt x y then x # y # ys else y # insort_lt lt x ys)"

definition py_sorted :: "('a \<Rightarrow> 'a \<Rightarrow> bool) \<Rightarrow> 'a list \<Rightarrow> 'a list" where
  "py_sorted lt xs = foldl (\<lambda>acc x. insort_lt lt x acc) [] xs"

text \<open>Lines 167-168: \<open>alnum_key\<close>; a key is a list whose items are ints or strings.\<close>

datatype token = Num int | Str string

definition alnum_key :: "string \<Rightarrow> token list" where
  "alnum_key s = map (\<lambda>part. if isdigit part then Num (py_int part) else Str part)
                     (split_on (CHR ''x'') s)"

text \<open>
  \<open><\<close> on two keys, as Python compares lists: the first pair of unequal items decides,
  and an int against a string raises \<open>TypeError\<close>; without such a pair the shorter
  list is smaller.
\<close>

fun token_less :: "token \<Rightarrow> token \<Rightarrow> py_error + bool" where
  "token_less (Num a) (Num b) = Inr (a < b)"
| "token_less (Str a) (Str b) = Inr (str_less a b)"
| "token_less _ _ = Inl TypeError"

fun key_less :: "token list \<Rightarrow> token list \<Rightarrow> py_error + bool" where
  "key_less [] [] = Inr False"
| "key_less [] (b # bs) = Inr True"
| "key_less (a # as) [] = Inr False"
| "key_less (a # as) (b # bs) = (if a = b then key_less as bs else token_less a b)"

definition alnum_less :: "string \<Rightarrow> string \<Rightarrow> bool" where
  "alnum_less a b \<longleftrightarrow> key_less (alnum_key a) (alnum_key b) = Inr True"

text \<open>
  \<open>sorted(names, key=alnum_key)\<close>.  Python raises \<open>TypeError\<close> when the sort compares
  two keys that have no order; which pairs it compares is an implementation detail,
  so the model raises as soon as some pair of the list has none (never fewer errors
  than Python), and sorts otherwise.
\<close>

definition sorted_alnum :: "string list \<Rightarrow> py_error + string list" where
  "sorted_alnum names =
     (if \<exists>a \<in> set names. \<exists>b \<in> set names. key_less (alnum_key a) (alnum_key b) = Inl TypeError
      then Inl TypeError
      else Inr (py_sorted alnum_less names))"


section \<open>The host document\<close>

text \<open>
  The part of Blender's data the script touches.  Data-blocks are identified by name
  (the host keeps names unique within \<open>bpy.data.collections\<close>, \<open>bpy.data.objects\<close>
  and \<open>bpy.data.meshes\<close>), and a reference to a data-block is its name.  Each store
  is an association list in creation order.  The scene's root collection is not in
  \<open>bpy.data.collections\<close>; it has children and objects like any other.
\<close>

record collection =
  col_children :: "string list"
  col_objects :: "string list"

record object =
  obj_type :: string
  obj_data :: "string option"
  obj_scale :: vec3
  obj_location :: vec3

record document =
  collections :: "(string \<times> collection) list"
  objects :: "(string \<times> object) list"
  meshes :: "(string \<times> bmesh) list"
  scene_collection :: collection

datatype coll_ref = SceneCollection | Collection string

definition get_collection :: "document \<Rightarrow> coll_ref \<Rightarrow> collection option" where
  "get_collection d r =
     (case r of SceneCollection \<Rightarrow> Some (scene_collection d)
              | Collection n \<Rightarrow> map_of (collections d) n)"

definition update_collection :: "coll_ref \<Rightarrow> (collection \<Rightarrow> collection) \<Rightarrow> document \<Rightarrow> document" where
  "update_collection r f d =
     (case r of SceneCollection \<Rightarrow> d\<lparr>scene_collection := f (scene_collection d)\<rparr>
              | Collection n \<Rightarrow> d\<lparr>collections := AList.map_entry n f (collections d)\<rparr>)"

text \<open>
  The host's rule for a new data-block whose requested name is taken: the name gets
  the suffix \<open>.001\<close>, \<open>.002\<close>, ... with the first number that is free.  (The names the
  script requests carry no numeric suffix of their own.)
\<close>

definition pad3 :: "nat \<Rightarrow> string" where
  "pad3 k = replicate (3 - length (str_nat k)) (CHR ''0'') @ str_nat k"

definition unique_name :: "string list \<Rightarrow> string \<Rightarrow> string" where
  "unique_name taken n =
     (if n \<notin> set taken then n
      else case find (\<lambda>c. c \<notin> set taken)
                     (map (\<lambda>k. n @ ''.'' @ pad3 k) [1..<length taken + 2]) of
             Some c \<Rightarrow> c
           | None \<Rightarrow> n)"

definition collections_new :: "string \<Rightarrow> document \<Rightarrow> string \<times> document" where
  "collections_new n d =
     (let n' = unique_name (map fst (collections d)) n
      in (n', d\<lparr>collections := collections d @ [(n', \<lparr>col_children = [], col_objects = []\<rparr>)]\<rparr>))"

definition meshes_new :: "string \<Rightarrow> bmesh \<Rightarrow> document \<Rightarrow> string \<times> document" where
  "meshes_new n bm d =
     (let n' = unique_name (map fst (meshes d)) n
      in (n', d\<lparr>meshes := meshes d @ [(n', bm)]\<rparr>))"

text \<open>\<open>bpy.data.objects.new(name, mesh)\<close>: an object of type \<open>MESH\<close> on that mesh.\<close>

definition objects_new :: "string \<Rightarrow> string \<Rightarrow> document \<Rightarrow> string \<times> document" where
  "objects_new n mesh d =
     (let n' = unique_name (map fst (objects d)) n
      in (n', d\<lparr>objects := objects d
                  @ [(n', \<lparr>obj_type = ''MESH'', obj_data = Some mesh,
                           obj_scale = (1, 1, 1), obj_location = (0, 0, 0)\<rparr>)]\<rparr>))"

text \<open>
  \<open>children.link\<close> and \<open>objects.link\<close> raise \<open>RuntimeError\<close> when the member is
  already linked, \<open>unlink\<close> when it is not.
\<close>

definition children_link :: "coll_ref \<Rightarrow> string \<Rightarrow> document \<Rightarrow> py_error + document" where
  "children_link r child d =
     (case get_collection d r of
        None \<Rightarrow> Inl RuntimeError
      | Some c \<Rightarrow>
          if child \<in> set (col_children c) then Inl RuntimeError
          else Inr (update_collection r (\<lambda>c. c\<lparr>col_children := col_children c @ [child]\<rparr>) d))"

definition children_unlink :: "coll_ref \<Rightarrow> string \<Rightarrow> document \<Rightarrow> py_error + document" where
  "children_unlink r child d =
     (case get_collection d r of
        None \<Rightarrow> Inl RuntimeError
      | Some c \<Rightarrow>
          if child \<notin> set (col_children c) then Inl RuntimeError
          else Inr (update_collection r (\<lambda>c. c\<lparr>col_children := removeAll child (col_children c)\<rparr>) d))"

definition objects_link :: "coll_ref \<Rightarrow> string \<Rightarrow> document \<Rightarrow> py_error + document" where
  "objects_link r ob d =
     (case get_collection d r of
        None \<Rightarrow> Inl RuntimeError
      | Some c \<Rightarrow>
          if ob \<in> set (col_objects c) then Inl RuntimeError
          else Inr (update_collection r (\<lambda>c. c\<lparr>col_objects := col_objects c @ [ob]\<rparr>) d))"

definition objects_unlink :: "coll_ref \<Rightarrow> string \<Rightarrow> document \<Rightarrow> py_error + document" where
  "objects_unlink r ob d =
     (case get_collection d r of
        None \<Rightarrow> Inl RuntimeError
      | Some c \<Rightarrow>
          if ob \<notin> set (col_objects c) then Inl RuntimeError
          else Inr (update_collection r (\<lambda>c. c\<lparr>col_objects := removeAll ob (col_objects c)\<rparr>) d))"

text \<open>
  \<open>bpy.data.objects.remove(obj, do_unlink=True)\<close> deletes the object and unlinks it
  from every collection; its mesh data-block stays in \<open>bpy.data.meshes\<close>.
  \<open>bpy.data.collections.remove(col)\<close> deletes the collection and unlinks it from
  every parent; its children and objects stay in the document.
\<close>

definition objects_remove :: "string \<Rightarrow> document \<Rightarrow> document" where
  "objects_remove n d =
     d\<lparr>objects := filter (\<lambda>(k, _). k \<noteq> n) (objects d),
       collections :=
         map (\<lambda>(k, c). (k, c\<lparr>col_objects := removeAll n (col_objects c)\<rparr>)) (collections d),
       scene_collection :=
         (scene_collection d)\<lparr>col_objects := removeAll n (col_objects (scene_collection d))\<rparr>\<rparr>"

definition collections_remove :: "string \<Rightarrow> document \<Rightarrow> document" where
  "collections_remove n d =
     d\<lparr>collections :=
         map (\<lambda>(k, c). (k, c\<lparr>col_children := removeAll n (col_children c)\<rparr>))
             (filter (\<lambda>(k, _). k \<noteq> n) (collections d)),
       scene_collection :=
         (scene_collection d)\<lparr>col_children := removeAll n (col_children (scene_collection d))\<rparr>\<rparr>"


section \<open>The generator\<close>

definition PLANE_SIZES_CM :: "int list" where
  "PLANE_SIZES_CM = [20, 40, 60, 80, 100, 120, 140, 160, 180, 200]"

definition EXPORT_TO_FBX :: bool where
  "EXPORT_TO_FBX = True"

definition PLANE_SIZES_M :: "rat list" where
  "PLANE_SIZES_M = map (\<lambda>s. of_int s / 100) PLANE_SIZES_CM"

text \<open>\<open>itertools.product(xs, ys)\<close>: every pair, the second component running fastest.\<close>

fun itertools_product :: "'a list \<Rightarrow> 'b list \<Rightarrow> ('a \<times> 'b) list" where
  "itertools_product [] ys = []"
| "itertools_product (x # xs) ys = map (\<lambda>y. (x, y)) ys @ itertools_product xs ys"

definition PLANE_SIZE_PAIRS :: "(rat \<times> rat) list" where
  "PLANE_SIZE_PAIRS = itertools_product PLANE_SIZES_M PLANE_SIZES_M"

subsection \<open>Lines 41-50: cleanup\<close>

definition generated_name :: "string \<Rightarrow> bool" where
  "generated_name n \<longleftrightarrow> isdigit n \<or> CHR ''x'' \<in> set n \<or> startswith n ''UCX_''"

definition cleanup :: "document \<Rightarrow> document" where
  "cleanup d =
     (let remove_collections = filter generated_name (map fst (collections d));
          d1 = fold (\<lambda>(n, ob) d'. if obj_type ob = ''MESH'' then objects_remove n d' else d')
                    (objects d) d
      in fold collections_remove remove_collections d1)"

subsection \<open>Lines 52-71: the collection hierarchy\<close>

text \<open>
  \<open>height_collections_map[w][h]\<close>, flattened to one map on pairs.  A lookup raises
  \<open>KeyError\<close> on a pair that was never stored.
\<close>

type_synonym height_map = "int \<times> int \<rightharpoonup> string"

text \<open>\<open>f"{width_cm}x{height_cm}"\<close>: the name of a subcollection and of its primary mesh.\<close>

definition size_name :: "int \<Rightarrow> int \<Rightarrow> string" where
  "size_name width_cm height_cm = py_str width_cm @ ''x'' @ py_str height_cm"

definition get_or_create :: "coll_ref \<Rightarrow> string \<Rightarrow> document \<Rightarrow> py_error + (string \<times> document)" where
  "get_or_create parent n d =
     (case map_of (collections d) n of
        Some _ \<Rightarrow> Inr (n, d)
      | None \<Rightarrow>
          (case collections_new n d of (n', d') \<Rightarrow>
             py_bind (children_link parent n' d') (\<lambda>d''. Inr (n', d''))))"


text \<open>Lines 66-71: one height of one width.\<close>

definition build_height ::
  "int \<Rightarrow> string \<Rightarrow> int \<Rightarrow> document \<times> height_map \<Rightarrow> py_error + document \<times> height_map" where
  "build_height width_cm width_collection height_cm s =
     (case s of (d, hm) \<Rightarrow>
        py_bind (get_or_create (Collection width_collection)
                   (size_name width_cm height_cm) d) (\<lambda>(subcollection, d').
        Inr (d', hm((width_cm, height_cm) \<mapsto> subcollection))))"

text \<open>Lines 58-71: one width, with all its heights.\<close>

definition build_width ::
  "int list \<Rightarrow> int \<Rightarrow> document \<times> height_map \<Rightarrow> py_error + document \<times> height_map" where
  "build_width sizes width_cm s =
     (case s of (d, hm) \<Rightarrow>
        py_bind (get_or_create SceneCollection (py_str width_cm) d) (\<lambda>(width_collection, d').
        for_each (build_height width_cm width_collection) sizes (d', hm)))"

definition build_hierarchy ::
  "int list \<Rightarrow> document \<times> height_map \<Rightarrow> py_error + document \<times> height_map" where
  "build_hierarchy sizes = for_each (build_width sizes) sizes"

subsection \<open>Lines 75-140: the two mesh builders\<close>

definition create_subdivided_plane_bmesh ::
  "rat \<Rightarrow> rat \<Rightarrow> string \<Rightarrow> document \<Rightarrow> py_error + (string \<times> document)" where
  "create_subdivided_plane_bmesh width height name d =
     py_bind (plane_bmesh width height) (\<lambda>bm.
     case meshes_new name bm d of (mesh, d') \<Rightarrow>
       Inr (objects_new name mesh d'))"

text \<open>\<open>mesh.from_pydata(verts, [], faces)\<close>: four vertices, one quad, no UV layer.\<close>

definition from_pydata :: "vec3 list \<Rightarrow> nat list list \<Rightarrow> bmesh" where
  "from_pydata vs fs =
     (let bvs = map (\<lambda>i. \<lparr>vert_index = i, vert_co = vs ! i\<rparr>) [0..<length vs]
      in \<lparr>bm_verts = bvs,
          bm_faces = map (\<lambda>f. \<lparr>face_loops = map (\<lambda>i. \<lparr>loop_vert = bvs ! i, loop_uv = (0, 0)\<rparr>) f\<rparr>) fs,
          bm_uv_layers = []\<rparr>)"

definition create_simple_plane :: "rat \<Rightarrow> rat \<Rightarrow> string \<Rightarrow> document \<Rightarrow> string \<times> document" where
  "create_simple_plane width height name d =
     (let hw = width / 2;
          hh = height / 2;
          verts = [(- hw, - hh, 0), (hw, - hh, 0), (hw, hh, 0), (- hw, hh, 0)];
          faces = [[0, 1, 2, 3]]
      in case meshes_new name (from_pydata verts faces) d of (mesh, d') \<Rightarrow>
           objects_new name mesh d')"

text \<open>The mesh of an object of the document, through its data reference.\<close>

definition object_mesh :: "document \<Rightarrow> string \<Rightarrow> bmesh option" where
  "object_mesh d n =
     (case map_of (objects d) n of
        None \<Rightarrow> None
      | Some ob \<Rightarrow> (case obj_data ob of None \<Rightarrow> None | Some m \<Rightarrow> map_of (meshes d) m))"

subsection \<open>Lines 143-163: the main creation loop\<close>

definition py_lookup :: "('k \<rightharpoonup> 'v) \<Rightarrow> 'k \<Rightarrow> py_error + 'v" where
  "py_lookup m k = (case m k of None \<Rightarrow> Inl KeyError | Some v \<Rightarrow> Inr v)"

text \<open>\<open>try: scene.collection.objects.unlink(o) / except Exception: pass\<close>.\<close>

definition try_unlink_from_scene :: "string \<Rightarrow> document \<Rightarrow> document" where
  "try_unlink_from_scene ob d =
     (case objects_unlink SceneCollection ob d of Inl _ \<Rightarrow> d | Inr d' \<Rightarrow> d')"

definition create_pair :: "height_map \<Rightarrow> rat \<times> rat \<Rightarrow> document \<Rightarrow> py_error + document" where
  "create_pair hm p d =
     (case p of (width, height) \<Rightarrow>
      let width_cm = py_round (width * 100);
          height_cm = py_round (height * 100);
          obj_name = size_name width_cm height_cm;
          ucx_name = ''UCX_'' @ obj_name
      in py_bind (create_subdivided_plane_bmesh width height obj_name d) (\<lambda>(obj, d1).
         case create_simple_plane width height ucx_name d1 of (obj_ucx, d2) \<Rightarrow>
         py_bind (py_lookup hm (width_cm, height_cm)) (\<lambda>subcol.
         py_bind (objects_link (Collection subcol) obj d2) (\<lambda>d3.
         py_bind (objects_link (Collection subcol) obj_ucx d3) (\<lambda>d4.
         Inr (fold try_unlink_from_scene [obj, obj_ucx] d4))))))"

definition create_all :: "height_map \<Rightarrow> (rat \<times> rat) list \<Rightarrow> document \<Rightarrow> py_error + document" where
  "create_all hm pairs = for_each (create_pair hm) pairs"


subsection \<open>Lines 166-193: sorting\<close>

definition int_key_less :: "string \<Rightarrow> string \<Rightarrow> bool" where
  "int_key_less a b \<longleftrightarrow> py_int a < py_int b"

text \<open>Lines 188-193: the objects of one subcollection, re-linked in name order.\<close>

definition sort_objects :: "string \<Rightarrow> document \<Rightarrow> py_error + document" where
  "sort_objects subcol_name d =
     (case map_of (collections d) subcol_name of
        None \<Rightarrow> Inl KeyError
      | Some subcol \<Rightarrow>
          let objs_sorted = py_sorted str_less (col_objects subcol)
          in py_bind (for_each (objects_unlink (Collection subcol_name)) (col_objects subcol) d)
               (for_each (objects_link (Collection subcol_name)) objs_sorted))"

text \<open>Lines 180-193: the subcollections of one width collection.\<close>

definition sort_heights :: "string \<Rightarrow> document \<Rightarrow> py_error + document" where
  "sort_heights col_name d =
     (case map_of (collections d) col_name of
        None \<Rightarrow> Inl KeyError
      | Some width_col \<Rightarrow>
          py_bind (sorted_alnum (col_children width_col)) (\<lambda>height_coll_names.
          py_bind (for_each (children_unlink (Collection col_name)) (col_children width_col) d)
            (for_each (\<lambda>subcol_name d'.
               case map_of (collections d') subcol_name of
                 None \<Rightarrow> Inl KeyError
               | Some _ \<Rightarrow>
                   py_bind (children_link (Collection col_name) subcol_name d')
                           (sort_objects subcol_name))
             height_coll_names)))"

definition sorting :: "document \<Rightarrow> py_error + document" where
  "sorting d =
     (let width_coll_names =
            py_sorted int_key_less (filter isdigit (col_children (scene_collection d)))
      in py_bind (for_each (\<lambda>col d'. if col \<in> set width_coll_names
                                      then children_unlink SceneCollection col d'
                                      else Inr d')
                   (col_children (scene_collection d)) d)
           (for_each (\<lambda>col_name d'.
              case map_of (collections d') col_name of
                None \<Rightarrow> Inl KeyError
              | Some _ \<Rightarrow>
                  py_bind (children_link SceneCollection col_name d') (sort_heights col_name))
            width_coll_names))"

text \<open>Lines 41-193: everything before the export.\<close>

definition generate :: "document \<Rightarrow> py_error + document" where
  "generate d =
     py_bind (build_hierarchy PLANE_SIZES_CM (cleanup d, Map.empty)) (\<lambda>(d1, hm).
     py_bind (create_all hm PLANE_SIZE_PAIRS d1) sorting)"

subsection \<open>Lines 198-267: the export\<close>

text \<open>
  The view layer holds one \<open>LayerCollection\<close> node for every collection linked below
  the scene, in the order of the children.  The host keeps the hierarchy free of
  cycles, so its depth is below the number of collections, which bounds the unfolding.
\<close>

datatype layer_collection = LayerCollection coll_ref "layer_collection list"

fun layer_tree :: "nat \<Rightarrow> document \<Rightarrow> string \<Rightarrow> layer_collection" where
  "layer_tree 0 d n = LayerCollection (Collection n) []"
| "layer_tree (Suc k) d n =
     LayerCollection (Collection n)
       (map (layer_tree k d)
            (case map_of (collections d) n of None \<Rightarrow> [] | Some c \<Rightarrow> col_children c))"

definition view_layer_collection :: "document \<Rightarrow> layer_collection" where
  "view_layer_collection d =
     LayerCollection SceneCollection
       (map (layer_tree (length (collections d)) d) (col_children (scene_collection d)))"

fun find_layer_collection :: "layer_collection \<Rightarrow> coll_ref \<Rightarrow> layer_collection option"
and find_layer_children :: "layer_collection list \<Rightarrow> coll_ref \<Rightarrow> layer_collection option" where
  "find_layer_collection (LayerCollection c children) coll =
     (if c = coll then Some (LayerCollection c children)
      else find_layer_children children coll)"
| "find_layer_children [] coll = None"
| "find_layer_children (child # rest) coll =
     (case find_layer_collection child coll of
        Some res \<Rightarrow> Some res
      | None \<Rightarrow> find_layer_children rest coll)"

text \<open>
  The operating system and the exporter, as far as the script meets them: the set of
  files, what was printed, and the export calls made (each with the active collection
  and the active object of the view layer at the time of the call).  Which of their
  operations fail is given from outside: \<open>os.remove\<close> (with the message of its
  exception), \<open>os.makedirs\<close> and the exporter.
\<close>

record export_call =
  filepath :: string
  active_collection :: string
  active_object :: string

record world =
  files :: "string set"
  printed :: "string list"
  exports :: "export_call list"

record host_faults =
  remove_error :: "string \<Rightarrow> string option"
  makedirs_fails :: "string \<Rightarrow> bool"
  export_fails :: "string \<Rightarrow> bool"

definition print :: "string \<Rightarrow> world \<Rightarrow> world" where
  "print s w = w\<lparr>printed := printed w @ [s]\<rparr>"

definition backslash :: string where
  "backslash = [char_of (92 :: nat)]"

definition EXPORT_BASE_DIR :: string where
  "EXPORT_BASE_DIR =
     ''D:'' @ backslash @ ''Projects'' @ backslash @ ''Personal'' @ backslash
     @ ''Unreal Projects'' @ backslash @ ''PSXSandboxProject'' @ backslash
     @ ''_Blender'' @ backslash @ ''Exported''"

text \<open>
  \<open>os.path.join(a, p)\<close> on the Windows paths of the script, for a component \<open>p\<close>
  without drive letter: a component that starts with a separator replaces everything
  after the drive of \<open>a\<close>, any other is appended behind a separator.
\<close>

definition is_sep :: "char \<Rightarrow> bool" where
  "is_sep c \<longleftrightarrow> c = hd backslash \<or> c = CHR ''/''"

definition os_path_join :: "string \<Rightarrow> string \<Rightarrow> string" where
  "os_path_join a p =
     (if p \<noteq> [] \<and> is_sep (hd p)
      then (if length a \<ge> 2 \<and> a ! 1 = CHR '':'' then take 2 a else []) @ p
      else if a = [] \<or> is_sep (last a) \<or> last a = CHR '':'' then a @ p
      else a @ backslash @ p)"

text \<open>Lines 218-265: the body of the inner export loop, for one subcollection.\<close>

definition is_mesh :: "document \<Rightarrow> string \<Rightarrow> bool" where
  "is_mesh d n \<longleftrightarrow> map_option obj_type (map_of (objects d) n) = Some ''MESH''"

definition remove_old_file :: "host_faults \<Rightarrow> string \<Rightarrow> world \<Rightarrow> world" where
  "remove_old_file hf export_path w =
     (if export_path \<in> files w
      then (case remove_error hf export_path of
              None \<Rightarrow> print (''Removed old file: '' @ export_path)
                        (w\<lparr>files := files w - {export_path}\<rparr>)
            | Some e \<Rightarrow> print (''Could not remove old file '' @ export_path @ '': '' @ e) w)
      else w)"

definition export_scene_fbx :: "host_faults \<Rightarrow> export_call \<Rightarrow> world \<Rightarrow> py_error + world" where
  "export_scene_fbx hf c w =
     (if export_fails hf (filepath c) then Inl RuntimeError
      else Inr (w\<lparr>files := insert (filepath c) (files w), exports := exports w @ [c]\<rparr>))"

definition export_subcollection ::
  "host_faults \<Rightarrow> document \<Rightarrow> string \<Rightarrow> string \<Rightarrow> world \<Rightarrow> py_error + world" where
  "export_subcollection hf d width_cm subcol_name w =
     (if CHR ''x'' \<notin> set subcol_name then Inr w
      else
        py_bind (py_index (split_on (CHR ''x'') subcol_name) 1) (\<lambda>height_cm.
        case map_of (collections d) subcol_name of
          None \<Rightarrow> Inl RuntimeError
        | Some subcol \<Rightarrow>
            let objects_to_export = filter (is_mesh d) (col_objects subcol)
            in if objects_to_export = [] then Inr w
               else
                 (case find_layer_collection (view_layer_collection d) (Collection subcol_name) of
                    None \<Rightarrow>
                      Inr (print (''LayerCollection for '' @ subcol_name @ '' not found, skipping.'') w)
                  | Some target_layer_collection \<Rightarrow>
                      let export_dir = os_path_join (os_path_join EXPORT_BASE_DIR width_cm) height_cm
                      in if makedirs_fails hf export_dir then Inl OSError
                         else
                           let fbx_filename = ''SM_Developer_Plane_'' @ subcol_name @ ''.fbx'';
                               export_path = os_path_join export_dir fbx_filename;
                               w1 = remove_old_file hf export_path w;
                               main_plane = find (\<lambda>ob. ob = subcol_name) objects_to_export
                           in py_bind (case main_plane of
                                         Some ob \<Rightarrow> Inr ob
                                       | None \<Rightarrow> py_index objects_to_export 0) (\<lambda>active.
                              py_bind (export_scene_fbx hf
                                         \<lparr>filepath = export_path,
                                          active_collection = subcol_name,
                                          active_object = active\<rparr> w1) (\<lambda>w2.
                              Inr (print (''Exported '' @ export_path) w2))))))"

text \<open>Lines 209-269.\<close>

definition batch_export :: "host_faults \<Rightarrow> document \<Rightarrow> world \<Rightarrow> py_error + world" where
  "batch_export hf d w =
     (if EXPORT_TO_FBX then
        let width_collections =
              py_sorted int_key_less (filter isdigit (col_children (scene_collection d)))
        in py_bind (for_each (\<lambda>width_col w'.
                      case map_of (collections d) width_col of
                        None \<Rightarrow> Inl RuntimeError
                      | Some c \<Rightarrow>
                          py_bind (sorted_alnum (col_children c))
                            (\<lambda>subcols. for_each (export_subcollection hf d width_col) subcols w'))
                    width_collections (print ''Now exporting FBX files...'' w))
             (\<lambda>w'. Inr (print ''Batch FBX export complete.'' w'))
      else Inr (print ''EXPORT_TO_FBX is set to False. Skipping FBX export step.'' w))"

text \<open>The whole script: the final document and what the outside world has seen.\<close>

definition run :: "host_faults \<Rightarrow> document \<Rightarrow> world \<Rightarrow> py_error + document \<times> world" where
  "run hf d w =
     py_bind (generate d) (\<lambda>d'.
     py_bind (batch_export hf d' (print ''Plane generation and organization complete!'' w))
       (\<lambda>w'. Inr (d', w')))"


section \<open>Notions used in the proofs\<close>

definition row_verts :: "nat \<Rightarrow> ('a \<Rightarrow> vec3) \<Rightarrow> 'a list \<Rightarrow> bmvert list" where
  "row_verts off g xs = map (\<lambda>i. \<lparr>vert_index = off + i, vert_co = g (xs ! i)\<rparr>) [0..<length xs]"

definition grid_verts :: "nat \<Rightarrow> ('a \<Rightarrow> 'b \<Rightarrow> vec3) \<Rightarrow> 'a list \<Rightarrow> 'b list \<Rightarrow> bmvert list list" where
  "grid_verts off g xs ys =
     map (\<lambda>j. row_verts (off + j * length xs) (\<lambda>x. g x (ys ! j)) xs) [0..<length ys]"

definition n_of :: "rat \<Rightarrow> int" where
  "n_of width = py_round (width / PLANE_SUBDIVISION_SIZE)"

definition plane_co :: "rat \<Rightarrow> rat \<Rightarrow> int \<Rightarrow> int \<Rightarrow> vec3" where
  "plane_co width height x y =
     (of_int x * PLANE_SUBDIVISION_SIZE - width / 2,
      of_int y * PLANE_SUBDIVISION_SIZE - height / 2, 0)"

definition plane_grid :: "rat \<Rightarrow> rat \<Rightarrow> bmvert list list" where
  "plane_grid width height =
     grid_verts 0 (plane_co width height) (py_range (n_of width + 1)) (py_range (n_of height + 1))"

definition plane_bounds :: "rat \<Rightarrow> rat \<Rightarrow> rat \<times> rat \<times> rat \<times> rat" where
  "plane_bounds width height = (- width / 2, width / 2, - height / 2, height / 2)"

definition uv_of :: "rat \<times> rat \<times> rat \<times> rat \<Rightarrow> bmvert \<Rightarrow> rat \<times> rat" where
  "uv_of bounds v =
     (case bounds of (min_x, max_x, min_y, max_y) \<Rightarrow>
      case vert_co v of (vx, vy, _) \<Rightarrow>
        ((vx - min_x) / (max_x - min_x), (vy - min_y) / (max_y - min_y)))"

definition nondegenerate :: "rat \<times> rat \<times> rat \<times> rat \<Rightarrow> bool" where
  "nondegenerate bounds \<longleftrightarrow>
     (case bounds of (min_x, max_x, min_y, max_y) \<Rightarrow> max_x - min_x \<noteq> 0 \<and> max_y - min_y \<noteq> 0)"

definition uvs_ok :: "rat \<times> rat \<times> rat \<times> rat \<Rightarrow> bmvert set \<Rightarrow> bmesh \<Rightarrow> bool" where
  "uvs_ok bounds V bm \<longleftrightarrow>
     (\<forall>f \<in> set (bm_faces bm). \<forall>l \<in> set (face_loops f).
        loop_vert l \<in> V \<and> loop_uv l = uv_of bounds (loop_vert l))"

definition has_loop :: "bmesh \<Rightarrow> bmvert \<Rightarrow> bool" where
  "has_loop bm v \<longleftrightarrow> (\<exists>f \<in> set (bm_faces bm). \<exists>l \<in> set (face_loops f). loop_vert l = v)"

definition grid_vert :: "rat \<Rightarrow> rat \<Rightarrow> int \<Rightarrow> int \<Rightarrow> bmvert" where
  "grid_vert w h x y =
     \<lparr>vert_index = nat y * nat (n_of w + 1) + nat x, vert_co = plane_co w h x y\<rparr>"

definition grid_set :: "rat \<Rightarrow> rat \<Rightarrow> bmvert set" where
  "grid_set w h = {grid_vert w h x y | x y. 0 \<le> x \<and> x \<le> n_of w \<and> 0 \<le> y \<and> y \<le> n_of h}"

definition cell_row :: "rat \<Rightarrow> rat \<Rightarrow> int \<Rightarrow> bmesh \<Rightarrow> py_error + bmesh" where
  "cell_row w h y =
     for_each (\<lambda>x. add_cell (plane_grid w h) (plane_bounds w h) y x) (py_range (n_of w))"

definition empty_document :: document where
  "empty_document =
     \<lparr>collections = [], objects = [], meshes = [],
      scene_collection = \<lparr>col_children = [], col_objects = []\<rparr>\<rparr>"

definition created_mesh :: "py_error + (string \<times> document) \<Rightarrow> bmesh option" where
  "created_mesh r = (case r of Inl e \<Rightarrow> None | Inr (ob, d) \<Rightarrow> object_mesh d ob)"

definition in_unit_square :: "rat \<times> rat \<Rightarrow> bool" where
  "in_unit_square p \<longleftrightarrow> 0 \<le> fst p \<and> fst p \<le> 1 \<and> 0 \<le> snd p \<and> snd p \<le> 1"

definition uvs_in_unit_square :: "bmesh \<Rightarrow> bool" where
  "uvs_in_unit_square bm \<longleftrightarrow>
     (\<forall>f \<in> set (bm_faces bm). \<forall>l \<in> set (face_loops f). in_unit_square (loop_uv l))"

definition loop_at :: "bmesh \<Rightarrow> vec3 \<Rightarrow> rat \<times> rat \<Rightarrow> bool" where
  "loop_at bm c p \<longleftrightarrow>
     (\<exists>f \<in> set (bm_faces bm). \<exists>l \<in> set (face_loops f).
        vert_co (loop_vert l) = c \<and> loop_uv l = p)"

text \<open>Every face loop of a mesh, face by face: the position of its vertex and its UV.\<close>

definition loop_table :: "bmesh \<Rightarrow> (vec3 \<times> rat \<times> rat) list" where
  "loop_table bm =
     concat (map (\<lambda>f. map (\<lambda>l. (vert_co (loop_vert l), loop_uv l)) (face_loops f))
                 (bm_faces bm))"

definition mesh_names :: "(string \<times> object) list \<Rightarrow> string set" where
  "mesh_names obs = {n. \<exists>ob. (n, ob) \<in> set obs \<and> obj_type ob = ''MESH''}"

definition generated_keys :: "(string \<times> collection) list \<Rightarrow> string set" where
  "generated_keys cols = {k \<in> fst ` set cols. generated_name k}"

definition drop_links :: "string set \<Rightarrow> string set \<Rightarrow> collection \<Rightarrow> collection" where
  "drop_links R M c =
     \<lparr>col_children = filter (\<lambda>n. n \<notin> R) (col_children c),
      col_objects = filter (\<lambda>n. n \<notin> M) (col_objects c)\<rparr>"

definition cleaned :: "string set \<Rightarrow> string set \<Rightarrow> document \<Rightarrow> document" where
  "cleaned R M d =
     \<lparr>collections = map (\<lambda>(k, c). (k, drop_links R M c))
                        (filter (\<lambda>(k, _). k \<notin> R) (collections d)),
      objects = filter (\<lambda>(k, _). k \<notin> M) (objects d),
      meshes = meshes d,
      scene_collection = drop_links R M (scene_collection d)\<rparr>"

text \<open>
  A document of the host has no dangling link: the children of a collection are
  collections, the objects linked to a collection are objects, and names are unique.
\<close>

definition well_formed :: "document \<Rightarrow> bool" where
  "well_formed d \<longleftrightarrow>
     distinct (map fst (collections d)) \<and> distinct (map fst (objects d))
     \<and> set (col_children (scene_collection d)) \<subseteq> fst ` set (collections d)
     \<and> set (col_objects (scene_collection d)) \<subseteq> fst ` set (objects d)
     \<and> (\<forall>(k, c) \<in> set (collections d).
           set (col_children c) \<subseteq> fst ` set (collections d)
           \<and> set (col_objects c) \<subseteq> fst ` set (objects d))"

text \<open>What the later stages rely on after the cleanup.\<close>

definition clean :: "document \<Rightarrow> bool" where
  "clean d \<longleftrightarrow>
     (\<forall>k \<in> fst ` set (collections d). \<not> generated_name k)
     \<and> (\<forall>n \<in> set (col_children (scene_collection d)). \<not> generated_name n)
     \<and> (\<forall>(k, c) \<in> set (collections d). \<forall>n \<in> set (col_children c). \<not> generated_name n)
     \<and> (\<forall>(k, ob) \<in> set (objects d). obj_type ob \<noteq> ''MESH'')
     \<and> set (col_objects (scene_collection d)) \<subseteq> fst ` set (objects d)
     \<and> (\<forall>(k, c) \<in> set (collections d). set (col_objects c) \<subseteq> fst ` set (objects d))"

definition col :: "document \<Rightarrow> string \<Rightarrow> collection option" where
  "col d = map_of (collections d)"

definition empty_collection :: collection where
  "empty_collection = \<lparr>col_children = [], col_objects = []\<rparr>"

definition width_collection_of :: "int list \<Rightarrow> int \<Rightarrow> collection" where
  "width_collection_of sizes w =
     \<lparr>col_children = map (size_name w) sizes, col_objects = []\<rparr>"

definition size_names :: "int list \<Rightarrow> int list \<Rightarrow> string set" where
  "size_names ws sizes = {size_name w h | w h. w \<in> set ws \<and> h \<in> set sizes}"

definition mesh_object :: "string \<Rightarrow> object" where
  "mesh_object m =
     \<lparr>obj_type = ''MESH'', obj_data = Some m, obj_scale = (1, 1, 1), obj_location = (0, 0, 0)\<rparr>"

definition quad_mesh :: "rat \<Rightarrow> rat \<Rightarrow> bmesh" where
  "quad_mesh width height =
     from_pydata [(- (width / 2), - (height / 2), 0), (width / 2, - (height / 2), 0),
                  (width / 2, height / 2, 0), (- (width / 2), height / 2, 0)] [[0, 1, 2, 3]]"

definition metres :: "int \<Rightarrow> rat" where
  "metres s = of_int s / 100"

definition links_ok :: "document \<Rightarrow> bool" where
  "links_ok d \<longleftrightarrow>
     set (col_objects (scene_collection d)) \<subseteq> fst ` set (objects d)
     \<and> (\<forall>n c. col d n = Some c \<longrightarrow> set (col_objects c) \<subseteq> fst ` set (objects d))"

definition pair_name :: "int \<times> int \<Rightarrow> string" where
  "pair_name p = size_name (fst p) (snd p)"

definition pair_metres :: "int \<times> int \<Rightarrow> rat \<times> rat" where
  "pair_metres p = (metres (fst p), metres (snd p))"

definition expected_mesh :: "int \<times> int \<Rightarrow> bmesh" where
  "expected_mesh p = projr (plane_bmesh (metres (fst p)) (metres (snd p)))"

definition expected_quad :: "int \<times> int \<Rightarrow> bmesh" where
  "expected_quad p = quad_mesh (metres (fst p)) (metres (snd p))"

text \<open>
  The state \<open>d'\<close> after the creation loop has run over the pairs \<open>ps\<close> from the state
  \<open>d\<close>, the primary mesh and the proxy of the pair \<open>p\<close> having got the names \<open>N p\<close>.
\<close>

definition new_objects :: "document \<Rightarrow> document \<Rightarrow> (string \<times> object) list" where
  "new_objects d d' = drop (length (objects d)) (objects d')"

definition created ::
  "document \<Rightarrow> (int \<times> int) list \<Rightarrow> document \<Rightarrow> (int \<times> int \<Rightarrow> string \<times> string) \<Rightarrow> bool" where
  "created d ps d' N \<longleftrightarrow>
     (\<forall>p \<in> set ps. col d' (pair_name p)
                     = Some \<lparr>col_children = [], col_objects = [fst (N p), snd (N p)]\<rparr>)
     \<and> (\<forall>n. n \<notin> pair_name ` set ps \<longrightarrow> col d' n = col d n)
     \<and> scene_collection d' = scene_collection d
     \<and> objects d' = objects d @ new_objects d d'
     \<and> map fst (new_objects d d') = concat (map (\<lambda>p. [fst (N p), snd (N p)]) ps)
     \<and> (\<forall>x \<in> set (new_objects d d'). obj_type (snd x) = ''MESH'')
     \<and> distinct (map fst (new_objects d d'))
     \<and> fst ` set (new_objects d d') \<inter> fst ` set (objects d) = {}
     \<and> take (length (meshes d)) (meshes d') = meshes d
     \<and> (\<forall>p \<in> set ps. (\<exists>s. fst (N p) = pair_name p @ s)
                      \<and> (\<exists>s. snd (N p) = ''UCX_'' @ pair_name p @ s)
                      \<and> object_mesh d' (fst (N p)) = Some (expected_mesh p)
                      \<and> object_mesh d' (snd (N p)) = Some (expected_quad p))
     \<and> ((\<forall>p \<in> set ps. pair_name p \<notin> fst ` set (objects d)
                       \<and> ''UCX_'' @ pair_name p \<notin> fst ` set (objects d))
          \<longrightarrow> (\<forall>p \<in> set ps. N p = (pair_name p, ''UCX_'' @ pair_name p)))
     \<and> links_ok d'"

text \<open>Sizes in strictly ascending order, none negative: what the configuration provides.\<close>

definition ascending :: "int list \<Rightarrow> bool" where
  "ascending sizes \<longleftrightarrow> sorted_wrt (<) sizes \<and> (\<forall>s \<in> set sizes. 0 \<le> s)"

definition same_data :: "document \<Rightarrow> document \<Rightarrow> bool" where
  "same_data d d' \<longleftrightarrow> objects d' = objects d \<and> meshes d' = meshes d"

text \<open>Objects that are in name order already stay as they are.\<close>

definition objects_in_order :: "collection \<Rightarrow> bool" where
  "objects_in_order c \<longleftrightarrow>
     distinct (col_objects c) \<and> py_sorted str_less (col_objects c) = col_objects c"

text \<open>
  A width collection whose subcollections are in order already, each with its objects
  in order.
\<close>

definition heights_in_order :: "document \<Rightarrow> string \<Rightarrow> bool" where
  "heights_in_order d wn \<longleftrightarrow>
     (\<exists>c. col d wn = Some c \<and> distinct (col_children c)
          \<and> sorted_alnum (col_children c) = Inr (col_children c)
          \<and> (\<forall>sn \<in> set (col_children c).
                sn \<noteq> wn \<and> (\<exists>cs. col d sn = Some cs \<and> objects_in_order cs)))"

definition size_pairs :: "(int \<times> int) list" where
  "size_pairs = itertools_product PLANE_SIZES_CM PLANE_SIZES_CM"

text \<open>
  The state \<open>d'\<close> the generator leaves when it starts from the cleaned document \<open>d0\<close>,
  the two objects of the pair \<open>p\<close> having got the names \<open>N p\<close>.
\<close>

definition generated ::
  "document \<Rightarrow> document \<Rightarrow> (int \<times> int \<Rightarrow> string \<times> string) \<Rightarrow> bool" where
  "generated d0 d' N \<longleftrightarrow>
     scene_collection d'
       = (scene_collection d0)
           \<lparr>col_children := col_children (scene_collection d0) @ map py_str PLANE_SIZES_CM\<rparr>
     \<and> (\<forall>w \<in> set PLANE_SIZES_CM.
           col d' (py_str w) = Some (width_collection_of PLANE_SIZES_CM w))
     \<and> (\<forall>p \<in> set size_pairs. col d' (pair_name p)
                     = Some \<lparr>col_children = [], col_objects = [fst (N p), snd (N p)]\<rparr>)
     \<and> (\<forall>n. n \<notin> py_str ` set PLANE_SIZES_CM \<union> pair_name ` set size_pairs
              \<longrightarrow> col d' n = col d0 n)
     \<and> objects d' = objects d0 @ new_objects d0 d'
     \<and> map fst (new_objects d0 d') = concat (map (\<lambda>p. [fst (N p), snd (N p)]) size_pairs)
     \<and> (\<forall>x \<in> set (new_objects d0 d'). obj_type (snd x) = ''MESH'')
     \<and> distinct (map fst (new_objects d0 d'))
     \<and> fst ` set (new_objects d0 d') \<inter> fst ` set (objects d0) = {}
     \<and> take (length (meshes d0)) (meshes d') = meshes d0
     \<and> (\<forall>p \<in> set size_pairs.
           (\<exists>s. fst (N p) = pair_name p @ s)
           \<and> (\<exists>s. snd (N p) = ''UCX_'' @ pair_name p @ s)
           \<and> object_mesh d' (fst (N p)) = Some (expected_mesh p)
           \<and> object_mesh d' (snd (N p)) = Some (expected_quad p))
     \<and> ((\<forall>p \<in> set size_pairs. pair_name p \<notin> fst ` set (objects d0)
                       \<and> ''UCX_'' @ pair_name p \<notin> fst ` set (objects d0))
          \<longrightarrow> (\<forall>p \<in> set size_pairs. N p = (pair_name p, ''UCX_'' @ pair_name p)))
     \<and> links_ok d'"

definition unsorted_document :: document where
  "unsorted_document =
     \<lparr>collections =
        [(''20x40'', \<lparr>col_children = [], col_objects = [''UCX_20x40'', ''20x40'']\<rparr>)],
      objects = [(''20x40'', mesh_object ''20x40''), (''UCX_20x40'', mesh_object ''UCX_20x40'')],
      meshes = [],
      scene_collection = \<lparr>col_children = [], col_objects = []\<rparr>\<rparr>"

text \<open>The names the script asks for, in the order of creation.\<close>

definition plane_object_names :: "string list" where
  "plane_object_names = concat (map (\<lambda>p. [pair_name p, ''UCX_'' @ pair_name p]) size_pairs)"

text \<open>A document that holds nothing but an empty (an object without mesh) named \<open>20x20\<close>.\<close>

definition cluttered_document :: document where
  "cluttered_document =
     \<lparr>collections = [],
      objects = [(''20x20'', \<lparr>obj_type = ''EMPTY'', obj_data = None,
                              obj_scale = (1, 1, 1), obj_location = (0, 0, 0)\<rparr>)],
      meshes = [],
      scene_collection = \<lparr>col_children = [], col_objects = [''20x20'']\<rparr>\<rparr>"

text \<open>After a whole run: the type of the object of a given name, if the run ends.\<close>

definition final_object_type :: "document \<Rightarrow> string \<Rightarrow> string option" where
  "final_object_type d n =
     (case generate d of
        Inl e \<Rightarrow> None
      | Inr d' \<Rightarrow> map_option obj_type (map_of (objects d') n))"

text \<open>After a whole run: whether a collection holds the object of a given name.\<close>

definition linked_after :: "document \<Rightarrow> string \<Rightarrow> string \<Rightarrow> bool option" where
  "linked_after d g n =
     (case generate d of
        Inl e \<Rightarrow> None
      | Inr d' \<Rightarrow> map_option (\<lambda>c. n \<in> set (col_objects c)) (map_of (collections d') g))"

text \<open>
  A document as a user may have it: a camera in the scene, and what an earlier run of
  the generator has left of the size 20 by 20.
\<close>

definition used_document :: document where
  "used_document =
     \<lparr>collections =
        [(''20'', \<lparr>col_children = [''20x20''], col_objects = []\<rparr>),
         (''20x20'', \<lparr>col_children = [], col_objects = [''20x20'']\<rparr>)],
      objects =
        [(''Camera'', \<lparr>obj_type = ''CAMERA'', obj_data = None,
                        obj_scale = (1, 1, 1), obj_location = (0, 0, 0)\<rparr>),
         (''20x20'', mesh_object ''20x20'')],
      meshes = [(''20x20'', bmesh_new)],
      scene_collection = \<lparr>col_children = [''20''], col_objects = [''Camera'']\<rparr>\<rparr>"

text \<open>Lines 234-237: the directory and the file a subcollection is exported to.\<close>

definition export_dir :: "string \<Rightarrow> string \<Rightarrow> string" where
  "export_dir width_cm subcol_name =
     os_path_join (os_path_join EXPORT_BASE_DIR width_cm) (split_on (CHR ''x'') subcol_name ! 1)"

definition export_path :: "string \<Rightarrow> string \<Rightarrow> string" where
  "export_path width_cm subcol_name =
     os_path_join (export_dir width_cm subcol_name)
                  (''SM_Developer_Plane_'' @ subcol_name @ ''.fbx'')"

text \<open>
  A subcollection that reaches the deletion of its old file (line 240): it is not
  skipped at lines 219, 223 or 230, and its directory can be made.
\<close>

definition being_exported :: "host_faults \<Rightarrow> document \<Rightarrow> string \<Rightarrow> string \<Rightarrow> bool" where
  "being_exported hf d width_cm subcol_name \<longleftrightarrow>
     CHR ''x'' \<in> set subcol_name
     \<and> (\<exists>subcol. map_of (collections d) subcol_name = Some subcol
                 \<and> filter (is_mesh d) (col_objects subcol) \<noteq> [])
     \<and> find_layer_collection (view_layer_collection d) (Collection subcol_name) \<noteq> None
     \<and> \<not> makedirs_fails hf (export_dir width_cm subcol_name)"

text \<open>
  A document with the subcollection \<open>20x40\<close> below the width collection \<open>20\<close>, a host on
  which no file can be removed, and a world that holds the file of an earlier export.
\<close>

definition shelved_document :: document where
  "shelved_document =
     \<lparr>collections =
        [(''20'', \<lparr>col_children = [''20x40''], col_objects = []\<rparr>),
         (''20x40'', \<lparr>col_children = [], col_objects = [''20x40'', ''UCX_20x40'']\<rparr>)],
      objects = [(''20x40'', mesh_object ''20x40''), (''UCX_20x40'', mesh_object ''UCX_20x40'')],
      meshes = [],
      scene_collection = \<lparr>col_children = [''20''], col_objects = []\<rparr>\<rparr>"

definition locked_host :: host_faults where
  "locked_host =
     \<lparr>remove_error = (\<lambda>p. Some ''Permission denied''),
      makedirs_fails = (\<lambda>p. False),
      export_fails = (\<lambda>p. False)\<rparr>"

definition old_export_world :: world where
  "old_export_world = \<lparr>files = {export_path ''20'' ''20x40''}, printed = [], exports = []\<rparr>"


section \<open>Properties\<close>

lemma py_bind_Inr [simp]: "py_bind (Inr x) f = f x"
  by (simp add: py_bind_def)

lemma py_bind_Inl [simp]: "py_bind (Inl e) f = Inl e"
  by (simp add: py_bind_def)

lemma py_bind_eq_Inr: "py_bind m f = Inr y \<longleftrightarrow> (\<exists>x. m = Inr x \<and> f x = Inr y)"
  by (cases m) simp_all

lemma length_py_range [simp]: "length (py_range n) = nat n"
  by (simp add: py_range_def)

lemma set_py_range [simp]: "set (py_range n) = {0..<n}"
  by (auto simp: py_range_def)

lemma py_range_nonpos: "n \<le> 0 \<Longrightarrow> py_range n = []"
  by (simp add: py_range_def)

lemma nth_py_range: "i < nat n \<Longrightarrow> py_range n ! i = int i"
  by (simp add: py_range_def)

lemma for_each_no_inner: "for_each (\<lambda>y. for_each (body y) []) ys s = Inr s"
  by (induction ys) simp_all

lemma for_each_invariant:
  assumes "\<And>x s. x \<in> set xs \<Longrightarrow> P s \<Longrightarrow> \<exists>s'. body x s = Inr s' \<and> P s'"
    and "P s"
  shows "\<exists>s'. for_each body xs s = Inr s' \<and> P s'"
  using assms
proof (induction xs arbitrary: s)
  case Nil
  then show ?case by simp
next
  case (Cons x xs)
  from Cons.prems(1)[of x s] Cons.prems(2)
  obtain s1 where s1: "body x s = Inr s1" "P s1" by auto
  have "\<exists>s'. for_each body xs s1 = Inr s' \<and> P s'"
    by (rule Cons.IH) (use Cons.prems(1) s1 in auto)
  with s1 show ?case by simp
qed

lemma for_each_establish:
  assumes run: "for_each body xs s = Inr s'"
    and mem: "x0 \<in> set xs"
    and inv: "\<And>x s t. x \<in> set xs \<Longrightarrow> body x s = Inr t \<Longrightarrow> P s \<Longrightarrow> P t"
    and est: "\<And>s t. body x0 s = Inr t \<Longrightarrow> P s \<Longrightarrow> Q t"
    and keep: "\<And>x s t. x \<in> set xs \<Longrightarrow> body x s = Inr t \<Longrightarrow> P s \<Longrightarrow> Q s \<Longrightarrow> Q t"
    and "P s"
  shows "Q s'"
proof -
  have keepall: "for_each body ys u = Inr u' \<Longrightarrow> set ys \<subseteq> set xs \<Longrightarrow> P u \<Longrightarrow> Q u \<Longrightarrow> Q u'"
    for ys u u'
  proof (induction ys arbitrary: u)
    case Nil
    then show ?case by simp
  next
    case (Cons y ys)
    from Cons.prems(1) obtain u1 where u1: "body y u = Inr u1" "for_each body ys u1 = Inr u'"
      by (auto split: sum.splits)
    have "P u1" using inv[of y u u1] Cons.prems u1 by auto
    moreover have "Q u1" using keep[of y u u1] Cons.prems u1 by auto
    ultimately show ?case using Cons.IH[of u1] u1 Cons.prems by auto
  qed
  have "for_each body ys u = Inr u' \<Longrightarrow> set ys \<subseteq> set xs \<Longrightarrow> x0 \<in> set ys \<Longrightarrow> P u \<Longrightarrow> Q u'"
    for ys u u'
  proof (induction ys arbitrary: u)
    case Nil
    then show ?case by simp
  next
    case (Cons y ys)
    from Cons.prems(1) obtain u1 where u1: "body y u = Inr u1" "for_each body ys u1 = Inr u'"
      by (auto split: sum.splits)
    have P1: "P u1" using inv[of y u u1] Cons.prems u1 by auto
    show ?case
    proof (cases "y = x0")
      case True
      then have "Q u1" using est[of u u1] u1 Cons.prems by auto
      then show ?thesis using keepall[of ys u1 u'] u1 P1 Cons.prems by auto
    next
      case False
      then show ?thesis using Cons.IH[of u1] u1 P1 Cons.prems by auto
    qed
  qed
  from this[OF run _ mem \<open>P s\<close>] show ?thesis by simp
qed

subsection \<open>The vertex grid\<close>

lemma row_verts_Nil [simp]: "row_verts off g [] = []"
  by (simp add: row_verts_def)

lemma row_verts_Cons:
  "row_verts off g (x # xs) = \<lparr>vert_index = off, vert_co = g x\<rparr> # row_verts (Suc off) g xs"
  by (simp add: row_verts_def map_upt_Suc del: upt_Suc)

lemma length_row_verts [simp]: "length (row_verts off g xs) = length xs"
  by (simp add: row_verts_def)

lemma nth_row_verts:
  "i < length xs \<Longrightarrow> row_verts off g xs ! i = \<lparr>vert_index = off + i, vert_co = g (xs ! i)\<rparr>"
  by (simp add: row_verts_def)

lemma comprehension_row:
  "comprehension (\<lambda>x. verts_new (g x)) xs bm
   = (row_verts (length (bm_verts bm)) g xs,
      bm\<lparr>bm_verts := bm_verts bm @ row_verts (length (bm_verts bm)) g xs\<rparr>)"
proof (induction xs arbitrary: bm)
  case Nil
  then show ?case by simp
next
  case (Cons x xs)
  obtain v bm1 where v: "verts_new (g x) bm = (v, bm1)"
    by (cases "verts_new (g x) bm")
  then have v': "v = \<lparr>vert_index = length (bm_verts bm), vert_co = g x\<rparr>"
      "bm1 = bm\<lparr>bm_verts := bm_verts bm @ [v]\<rparr>"
    by (auto simp: verts_new_def Let_def)
  show ?case
    by (simp add: v Cons.IH[of bm1] row_verts_Cons) (simp add: v')
qed

lemma grid_verts_Nil [simp]: "grid_verts off g xs [] = []"
  by (simp add: grid_verts_def)

lemma grid_verts_Cons:
  "grid_verts off g xs (y # ys)
   = row_verts off (\<lambda>x. g x y) xs # grid_verts (off + length xs) g xs ys"
  by (simp add: grid_verts_def map_upt_Suc add.assoc del: upt_Suc)

lemma length_grid_verts [simp]: "length (grid_verts off g xs ys) = length ys"
  by (simp add: grid_verts_def)

lemma length_concat_grid_verts:
  "length (concat (grid_verts off g xs ys)) = length ys * length xs"
  by (induction ys arbitrary: off) (simp_all add: grid_verts_Cons)

lemma comprehension_grid:
  "comprehension (\<lambda>y. comprehension (\<lambda>x. verts_new (g x y)) xs) ys bm
   = (grid_verts (length (bm_verts bm)) g xs ys,
      bm\<lparr>bm_verts := bm_verts bm @ concat (grid_verts (length (bm_verts bm)) g xs ys)\<rparr>)"
proof (induction ys arbitrary: bm)
  case Nil
  then show ?case by simp
next
  case (Cons y ys)
  show ?case
    by (simp only: comprehension.simps Cons.IH)
       (simp add: comprehension_row grid_verts_Cons)
qed

lemma nth_grid_verts:
  "j < length ys \<Longrightarrow> i < length xs \<Longrightarrow>
   grid_verts off g xs ys ! j ! i
   = \<lparr>vert_index = off + j * length xs + i, vert_co = g (xs ! i) (ys ! j)\<rparr>"
  by (simp add: grid_verts_def nth_row_verts)

subsection \<open>Vertex count and degenerate sizes\<close>

lemma plane_bmesh_unfold:
  "plane_bmesh width height =
     for_each (\<lambda>y. for_each (\<lambda>x. add_cell (plane_grid width height) (plane_bounds width height) y x)
                             (py_range (n_of width)))
              (py_range (n_of height))
              \<lparr>bm_verts = concat (plane_grid width height), bm_faces = [], bm_uv_layers = [''UVMap'']\<rparr>"
  by (simp add: plane_bmesh_def py_div_def PLANE_SUBDIVISION_SIZE_def Let_def comprehension_grid
      bmesh_new_def uv_layer_new_def plane_grid_def plane_bounds_def n_of_def plane_co_def[abs_def])

lemma py_round_nonpos: "x \<le> 0 \<Longrightarrow> py_round x \<le> 0"
proof -
  assume x: "x \<le> 0"
  then have f: "\<lfloor>x\<rfloor> \<le> 0" by (simp add: floor_le_iff)
  show ?thesis
  proof (cases "\<lfloor>x\<rfloor> = 0")
    case True
    then have "x = 0" using x by (metis floor_le_iff le_floor_iff of_int_0 order_antisym floor_zero  of_int_floor_le)
    then show ?thesis by (simp add: py_round_def)
  next
    case False
    then have "\<lfloor>x\<rfloor> + 1 \<le> 0" using f by linarith
    then show ?thesis using f by (auto simp: py_round_def Let_def)
  qed
qed

lemma py_round_nonneg: "0 \<le> x \<Longrightarrow> 0 \<le> py_round x"
proof -
  assume "0 \<le> x"
  then have "0 \<le> \<lfloor>x\<rfloor>" by simp
  then show ?thesis by (auto simp: py_round_def Let_def)
qed

lemma py_round_of_int [simp]: "py_round (of_int k) = k"
  by (simp add: py_round_def)

lemma n_of_nonpos: "width \<le> 0 \<Longrightarrow> n_of width \<le> 0"
  unfolding n_of_def by (rule py_round_nonpos) (simp add: PLANE_SUBDIVISION_SIZE_def)

lemma n_of_nonneg: "0 \<le> width \<Longrightarrow> 0 \<le> n_of width"
  unfolding n_of_def by (rule py_round_nonneg) (simp add: PLANE_SUBDIVISION_SIZE_def)

lemma for_each_frame:
  assumes "for_each body xs s = Inr s'"
    and "\<And>x s t. x \<in> set xs \<Longrightarrow> body x s = Inr t \<Longrightarrow> f t = f s"
  shows "f s' = f s"
  using assms
proof (induction xs arbitrary: s)
  case Nil
  then show ?case by simp
next
  case (Cons x xs)
  from Cons.prems(1) obtain s1 where s1: "body x s = Inr s1" "for_each body xs s1 = Inr s'"
    by (auto split: sum.splits)
  have "f s' = f s1" by (rule Cons.IH[OF s1(2)]) (use Cons.prems(2) in auto)
  moreover have "f s1 = f s" using Cons.prems(2)[of x s s1] s1 by simp
  ultimately show ?case by simp
qed

lemma add_tri_verts: "add_tri bounds tri bm = Inr bm' \<Longrightarrow> bm_verts bm' = bm_verts bm"
  by (auto simp: add_tri_def py_bind_eq_Inr faces_new_def split: sum.splits py_error.splits option.splits if_splits prod.splits)

lemma add_cell_verts: "add_cell g bounds y x bm = Inr bm' \<Longrightarrow> bm_verts bm' = bm_verts bm"
  unfolding add_cell_def py_bind_eq_Inr
  by (elim exE conjE) (erule for_each_frame, erule add_tri_verts)

lemma plane_bmesh_verts:
  assumes "plane_bmesh width height = Inr bm"
  shows "bm_verts bm = concat (plane_grid width height)"
proof -
  have "bm_verts bm = bm_verts \<lparr>bm_verts = concat (plane_grid width height), bm_faces = [],
                                bm_uv_layers = [''UVMap'']\<rparr>"
    using assms unfolding plane_bmesh_unfold
    by (rule for_each_frame) (erule for_each_frame, erule add_cell_verts)
  then show ?thesis by simp
qed

lemma length_plane_grid:
  "length (concat (plane_grid width height)) = nat (n_of height + 1) * nat (n_of width + 1)"
  by (simp add: plane_grid_def length_concat_grid_verts)

lemma plane_bmesh_degenerate:
  assumes "width \<le> 0 \<or> height \<le> 0"
  shows "plane_bmesh width height
         = Inr \<lparr>bm_verts = concat (plane_grid width height), bm_faces = [],
                bm_uv_layers = [''UVMap'']\<rparr>"
proof -
  from assms have "py_range (n_of width) = [] \<or> py_range (n_of height) = []"
    using n_of_nonpos py_range_nonpos by blast
  then show ?thesis
    unfolding plane_bmesh_unfold by (auto simp: for_each_no_inner)
qed

subsection \<open>Decimal strings\<close>

declare str_nat.simps [simp del]

lemma digit_cases:
  "d < 10 \<Longrightarrow> d = 0 \<or> d = 1 \<or> d = 2 \<or> d = 3 \<or> d = 4 \<or> d = 5 \<or> d = 6 \<or> d = 7 \<or> d = 8 \<or> d = (9::nat)"
  by arith

lemma digit_of_digit_char: "d < 10 \<Longrightarrow> digit_of (digit_char d) = d"
  by (drule digit_cases) (elim disjE; simp add: digit_of_def digit_char_def)

lemma digit_char_in_digits: "d < 10 \<Longrightarrow> digit_char d \<in> set ''0123456789''"
  unfolding digit_char_def by (rule nth_mem) simp

lemma py_int_append: "py_int (s @ [c]) = 10 * py_int s + int (digit_of c)"
  by (simp add: py_int_def)

lemma div_mod_10: "10 * int (n div 10) + int (n mod 10) = int n"
  by (simp add: zdiv_int zmod_int)

lemma py_int_str_nat: "py_int (str_nat n) = int n"
proof (induction n rule: str_nat.induct)
  case (1 n)
  show ?case
  proof (cases "n < 10")
    case True
    then show ?thesis
      by (subst str_nat.simps) (simp add: py_int_def digit_of_digit_char)
  next
    case False
    then have "py_int (str_nat (n div 10)) = int (n div 10)" using 1 by simp
    then show ?thesis using False
      by (subst str_nat.simps) (simp add: py_int_append digit_of_digit_char div_mod_10)
  qed
qed

lemma str_nat_digits: "set (str_nat n) \<subseteq> set ''0123456789''"
proof (induction n rule: str_nat.induct)
  case (1 n)
  show ?case
  proof (cases "n < 10")
    case True
    then show ?thesis
      using digit_char_in_digits[of n] by (subst str_nat.simps) simp
  next
    case False
    then have "set (str_nat (n div 10)) \<subseteq> set ''0123456789''" using 1 by simp
    moreover have "digit_char (n mod 10) \<in> set ''0123456789''"
      by (rule digit_char_in_digits) simp
    ultimately show ?thesis using False
      by (subst str_nat.simps) simp
  qed
qed

lemma str_nat_nonempty [simp]: "str_nat n \<noteq> []"
  by (subst str_nat.simps) simp

lemma isdigit_str_nat [simp]: "isdigit (str_nat n)"
  unfolding isdigit_def using str_nat_digits[of n] str_nat_nonempty[of n] by blast

lemma str_nat_inj: "str_nat a = str_nat b \<Longrightarrow> a = b"
proof -
  assume e: "str_nat a = str_nat b"
  have "int a = py_int (str_nat a)" by (simp only: py_int_str_nat)
  also have "\<dots> = py_int (str_nat b)" by (simp only: e)
  also have "\<dots> = int b" by (simp only: py_int_str_nat)
  finally show ?thesis by simp
qed

lemma py_int_zeros: "py_int (replicate m (CHR ''0'') @ s) = py_int s"
proof -
  have "foldl (\<lambda>a c. 10 * a + int (digit_of c)) 0 (replicate m (CHR ''0'')) = 0"
    by (induction m) (simp_all add: digit_of_def)
  then show ?thesis by (simp add: py_int_def)
qed

lemma py_int_pad3: "py_int (pad3 a) = int a"
  by (simp add: pad3_def py_int_zeros py_int_str_nat)

lemma pad3_inj: "pad3 a = pad3 b \<Longrightarrow> a = b"
proof -
  assume e: "pad3 a = pad3 b"
  have "int a = py_int (pad3 a)" by (simp only: py_int_pad3)
  also have "\<dots> = py_int (pad3 b)" by (simp only: e)
  also have "\<dots> = int b" by (simp only: py_int_pad3)
  finally show ?thesis by simp
qed

subsection \<open>Fresh names\<close>

lemma unique_name_fresh: "unique_name taken n \<notin> set taken"
proof (cases "n \<in> set taken")
  case False
  then show ?thesis by (simp add: unique_name_def)
next
  case True
  define cs where "cs = map (\<lambda>k. n @ ''.'' @ pad3 k) [1..<length taken + 2]"
  have "inj_on (\<lambda>k. n @ ''.'' @ pad3 k) (set [1..<length taken + 2])"
    by (auto simp: inj_on_def dest: pad3_inj)
  then have dist: "distinct cs"
    unfolding cs_def by (simp add: distinct_map)
  have len: "length cs = length taken + 1"
    unfolding cs_def length_map length_upt by arith
  have "\<exists>c \<in> set cs. c \<notin> set taken"
  proof (rule ccontr)
    assume "\<not> (\<exists>c \<in> set cs. c \<notin> set taken)"
    then have "set cs \<subseteq> set taken" by auto
    then have "card (set cs) \<le> card (set taken)" by (simp add: card_mono)
    moreover have "card (set cs) = length taken + 1" using dist len by (simp add: distinct_card)
    moreover have "card (set taken) \<le> length taken" by (rule card_length)
    ultimately show False by simp
  qed
  then have "find (\<lambda>c. c \<notin> set taken) cs \<noteq> None"
    by (auto simp: find_None_iff)
  then obtain c where "find (\<lambda>c. c \<notin> set taken) cs = Some c"
    by blast
  moreover from this have "c \<notin> set taken" by (auto simp: find_Some_iff)
  ultimately show ?thesis using True by (simp add: unique_name_def cs_def)
qed

lemma unique_name_free: "n \<notin> set taken \<Longrightarrow> unique_name taken n = n"
  by (simp add: unique_name_def)

lemma map_of_snoc:
  "map_of (xs @ [(k, v)]) k' = (case map_of xs k' of Some v' \<Rightarrow> Some v'
                                | None \<Rightarrow> if k' = k then Some v else None)"
  by (simp add: map_add_def split: option.splits)

lemma map_of_append_fresh:
  "k \<notin> fst ` set xs \<Longrightarrow> map_of (xs @ [(k, v)]) k = Some v"
proof -
  assume "k \<notin> fst ` set xs"
  then have "map_of xs k = None" by (simp add: map_of_eq_None_iff)
  then show ?thesis by (simp add: map_of_snoc del: map_of_append)
qed

lemma map_of_append_other:
  "k' \<noteq> k \<Longrightarrow> map_of (xs @ [(k, v)]) k' = map_of xs k'"
  by (simp add: map_of_snoc del: map_of_append split: option.splits)

lemma create_subdivided_plane_bmesh_mesh:
  assumes "plane_bmesh width height = Inr bm"
  shows "\<exists>ob d'. create_subdivided_plane_bmesh width height name d = Inr (ob, d')
                 \<and> object_mesh d' ob = Some bm"
proof -
  define mesh where "mesh = unique_name (map fst (meshes d)) name"
  define d1 where "d1 = d\<lparr>meshes := meshes d @ [(mesh, bm)]\<rparr>"
  define ob where "ob = unique_name (map fst (objects d1)) name"
  define rec where "rec = \<lparr>obj_type = ''MESH'', obj_data = Some mesh,
                           obj_scale = (1, 1, 1), obj_location = (0, 0, 0)\<rparr>"
  define d2 where "d2 = d1\<lparr>objects := objects d1 @ [(ob, rec)]\<rparr>"
  have run: "create_subdivided_plane_bmesh width height name d = Inr (ob, d2)"
    by (simp add: create_subdivided_plane_bmesh_def assms meshes_new_def objects_new_def Let_def
        mesh_def d1_def ob_def d2_def rec_def)
  have "mesh \<notin> fst ` set (meshes d)"
    using unique_name_fresh[of "map fst (meshes d)" name] by (simp add: mesh_def)
  then have m: "map_of (meshes d2) mesh = Some bm"
    by (simp add: d2_def d1_def map_of_append_fresh del: map_of_append)
  have "ob \<notin> fst ` set (objects d1)"
    using unique_name_fresh[of "map fst (objects d1)" name] by (simp add: ob_def)
  then have "map_of (objects d2) ob = Some rec"
    by (simp add: d2_def map_of_append_fresh del: map_of_append)
  then have "object_mesh d2 ob = Some bm"
    using m by (simp add: object_mesh_def rec_def)
  with run show ?thesis by blast
qed

subsection \<open>The face loop\<close>

lemma set_loop_uv_ok:
  "nondegenerate bounds \<Longrightarrow>
   set_loop_uv bounds l = Inr (l\<lparr>loop_uv := uv_of bounds (loop_vert l)\<rparr>)"
  by (auto simp: set_loop_uv_def nondegenerate_def uv_of_def py_div_def split: prod.splits)

lemma set_face_uvs_ok:
  "nondegenerate bounds \<Longrightarrow>
   set_face_uvs bounds ls = Inr (map (\<lambda>l. l\<lparr>loop_uv := uv_of bounds (loop_vert l)\<rparr>) ls)"
  by (induction ls) (simp_all add: set_loop_uv_ok)

lemma faces_get_Some:
  assumes "\<exists>f \<in> set (bm_faces bm). face_vert_ids f = set (map vert_index vs)"
  shows "\<exists>i. faces_get vs bm = Some i \<and> i < length (bm_faces bm)
             \<and> face_vert_ids (bm_faces bm ! i) = set (map vert_index vs)"
proof -
  from assms obtain j where "j < length (bm_faces bm)"
      "face_vert_ids (bm_faces bm ! j) = set (map vert_index vs)"
    by (auto simp: in_set_conv_nth)
  then have "faces_get vs bm \<noteq> None"
    by (auto simp: faces_get_def find_None_iff)
  then obtain i where i: "faces_get vs bm = Some i" by blast
  then have "i < length (bm_faces bm) \<and> face_vert_ids (bm_faces bm ! i) = set (map vert_index vs)"
    unfolding faces_get_def find_Some_iff by auto
  with i show ?thesis by blast
qed

text \<open>What one triangle does, in both branches of the \<open>try\<close>.\<close>

lemma add_tri_cases:
  assumes nd: "nondegenerate bounds" and dist: "distinct (map vert_index tri)"
  shows "(add_tri bounds tri bm
            = Inr (bm\<lparr>bm_faces := bm_faces bm
                     @ [\<lparr>face_loops = map (\<lambda>v. \<lparr>loop_vert = v, loop_uv = uv_of bounds v\<rparr>) tri\<rparr>]\<rparr>))
       \<or> (\<exists>i < length (bm_faces bm).
            face_vert_ids (bm_faces bm ! i) = set (map vert_index tri)
            \<and> add_tri bounds tri bm
                = Inr (bm\<lparr>bm_faces := (bm_faces bm)
                         [i := \<lparr>face_loops = map (\<lambda>l. l\<lparr>loop_uv := uv_of bounds (loop_vert l)\<rparr>)
                                                (face_loops (bm_faces bm ! i))\<rparr>]\<rparr>))"
proof (cases "\<exists>f \<in> set (bm_faces bm). face_vert_ids f = set (map vert_index tri)")
  case False
  then have "faces_new tri bm
    = Inr (length (bm_faces bm),
           bm\<lparr>bm_faces := bm_faces bm
              @ [\<lparr>face_loops = map (\<lambda>v. \<lparr>loop_vert = v, loop_uv = (0, 0)\<rparr>) tri\<rparr>]\<rparr>)"
    using dist by (simp add: faces_new_def)
  then have "add_tri bounds tri bm
            = Inr (bm\<lparr>bm_faces := bm_faces bm
                     @ [\<lparr>face_loops = map (\<lambda>v. \<lparr>loop_vert = v, loop_uv = uv_of bounds v\<rparr>) tri\<rparr>]\<rparr>)"
    by (simp add: add_tri_def set_face_uvs_ok[OF nd] comp_def)
  then show ?thesis by blast
next
  case True
  then have new: "faces_new tri bm = Inl ValueError"
    by (simp add: faces_new_def)
  from faces_get_Some[OF True] obtain i where i: "faces_get tri bm = Some i"
      "i < length (bm_faces bm)" "face_vert_ids (bm_faces bm ! i) = set (map vert_index tri)"
    by blast
  have "add_tri bounds tri bm
        = Inr (bm\<lparr>bm_faces := (bm_faces bm)
                 [i := \<lparr>face_loops = map (\<lambda>l. l\<lparr>loop_uv := uv_of bounds (loop_vert l)\<rparr>)
                                        (face_loops (bm_faces bm ! i))\<rparr>]\<rparr>)"
    by (simp add: add_tri_def new i set_face_uvs_ok[OF nd])
  with i show ?thesis by blast
qed

lemma add_tri_succeeds:
  "nondegenerate bounds \<Longrightarrow> distinct (map vert_index tri) \<Longrightarrow> \<exists>bm'. add_tri bounds tri bm = Inr bm'"
  using add_tri_cases[of bounds tri bm] by blast

lemma add_tri_uvs_ok:
  assumes nd: "nondegenerate bounds" and dist: "distinct (map vert_index tri)"
    and ok: "uvs_ok bounds V bm" and sub: "set tri \<subseteq> V"
    and run: "add_tri bounds tri bm = Inr bm'"
  shows "uvs_ok bounds V bm'"
  using add_tri_cases[OF nd dist, of bm]
proof (elim disjE exE conjE)
  assume "add_tri bounds tri bm
            = Inr (bm\<lparr>bm_faces := bm_faces bm
                     @ [\<lparr>face_loops = map (\<lambda>v. \<lparr>loop_vert = v, loop_uv = uv_of bounds v\<rparr>) tri\<rparr>]\<rparr>)"
  with run have "bm' = bm\<lparr>bm_faces := bm_faces bm
                     @ [\<lparr>face_loops = map (\<lambda>v. \<lparr>loop_vert = v, loop_uv = uv_of bounds v\<rparr>) tri\<rparr>]\<rparr>"
    by simp
  then show ?thesis using ok sub by (auto simp: uvs_ok_def)
next
  fix i
  assume i: "i < length (bm_faces bm)"
    and "add_tri bounds tri bm
                = Inr (bm\<lparr>bm_faces := (bm_faces bm)
                         [i := \<lparr>face_loops = map (\<lambda>l. l\<lparr>loop_uv := uv_of bounds (loop_vert l)\<rparr>)
                                                (face_loops (bm_faces bm ! i))\<rparr>]\<rparr>)"
  with run have bm': "bm' = bm\<lparr>bm_faces := (bm_faces bm)
                         [i := \<lparr>face_loops = map (\<lambda>l. l\<lparr>loop_uv := uv_of bounds (loop_vert l)\<rparr>)
                                                (face_loops (bm_faces bm ! i))\<rparr>]\<rparr>"
    by simp
  have old: "\<forall>l \<in> set (face_loops (bm_faces bm ! i)). loop_vert l \<in> V"
    using ok i by (auto simp: uvs_ok_def)
  show ?thesis
    unfolding uvs_ok_def bm'
  proof (intro ballI)
    fix f l
    assume f: "f \<in> set (bm_faces (bm\<lparr>bm_faces := (bm_faces bm)
                         [i := \<lparr>face_loops = map (\<lambda>l. l\<lparr>loop_uv := uv_of bounds (loop_vert l)\<rparr>)
                                                (face_loops (bm_faces bm ! i))\<rparr>]\<rparr>))"
      and l: "l \<in> set (face_loops f)"
    from f have "f \<in> set (bm_faces bm)
        \<or> f = \<lparr>face_loops = map (\<lambda>l. l\<lparr>loop_uv := uv_of bounds (loop_vert l)\<rparr>)
                                                (face_loops (bm_faces bm ! i))\<rparr>"
      using set_update_subset_insert[of "bm_faces bm" i] by auto
    then show "loop_vert l \<in> V \<and> loop_uv l = uv_of bounds (loop_vert l)"
      using l ok old by (auto simp: uvs_ok_def)
  qed
qed

lemma add_tri_has_loop_keep:
  assumes nd: "nondegenerate bounds" and dist: "distinct (map vert_index tri)"
    and run: "add_tri bounds tri bm = Inr bm'" and has: "has_loop bm v"
  shows "has_loop bm' v"
  using add_tri_cases[OF nd dist, of bm]
proof (elim disjE exE conjE)
  assume "add_tri bounds tri bm
            = Inr (bm\<lparr>bm_faces := bm_faces bm
                     @ [\<lparr>face_loops = map (\<lambda>v. \<lparr>loop_vert = v, loop_uv = uv_of bounds v\<rparr>) tri\<rparr>]\<rparr>)"
  with run has show ?thesis by (auto simp: has_loop_def)
next
  fix i
  assume i: "i < length (bm_faces bm)"
    and "add_tri bounds tri bm
                = Inr (bm\<lparr>bm_faces := (bm_faces bm)
                         [i := \<lparr>face_loops = map (\<lambda>l. l\<lparr>loop_uv := uv_of bounds (loop_vert l)\<rparr>)
                                                (face_loops (bm_faces bm ! i))\<rparr>]\<rparr>)"
  with run have bm': "bm_faces bm' = (bm_faces bm)
                         [i := \<lparr>face_loops = map (\<lambda>l. l\<lparr>loop_uv := uv_of bounds (loop_vert l)\<rparr>)
                                                (face_loops (bm_faces bm ! i))\<rparr>]"
    by auto
  from has obtain f l where "f \<in> set (bm_faces bm)" and l: "l \<in> set (face_loops f)"
      "loop_vert l = v"
    unfolding has_loop_def by blast
  then obtain j where "j < length (bm_faces bm)" "bm_faces bm ! j = f"
    by (auto simp: in_set_conv_nth)
  with l have j: "j < length (bm_faces bm)" "l \<in> set (face_loops (bm_faces bm ! j))"
      "loop_vert l = v"
    by simp_all
  have "\<exists>l' \<in> set (face_loops (bm_faces bm' ! j)). loop_vert l' = v"
  proof (cases "j = i")
    case True
    then show ?thesis using j i bm' by force
  next
    case False
    then show ?thesis using j bm' by auto
  qed
  moreover have "j < length (bm_faces bm')" using j bm' by simp
  then have "bm_faces bm' ! j \<in> set (bm_faces bm')" by (rule nth_mem)
  ultimately show ?thesis unfolding has_loop_def by blast
qed

lemma add_tri_has_loop_new:
  assumes nd: "nondegenerate bounds" and dist: "distinct (map vert_index tri)"
    and ok: "uvs_ok bounds V bm" and sub: "set tri \<subseteq> V" and inj: "inj_on vert_index V"
    and run: "add_tri bounds tri bm = Inr bm'" and v: "v \<in> set tri"
  shows "has_loop bm' v"
  using add_tri_cases[OF nd dist, of bm]
proof (elim disjE exE conjE)
  assume "add_tri bounds tri bm
            = Inr (bm\<lparr>bm_faces := bm_faces bm
                     @ [\<lparr>face_loops = map (\<lambda>v. \<lparr>loop_vert = v, loop_uv = uv_of bounds v\<rparr>) tri\<rparr>]\<rparr>)"
  with run v show ?thesis by (force simp: has_loop_def)
next
  fix i
  assume i: "i < length (bm_faces bm)"
    and ids: "face_vert_ids (bm_faces bm ! i) = set (map vert_index tri)"
    and "add_tri bounds tri bm
                = Inr (bm\<lparr>bm_faces := (bm_faces bm)
                         [i := \<lparr>face_loops = map (\<lambda>l. l\<lparr>loop_uv := uv_of bounds (loop_vert l)\<rparr>)
                                                (face_loops (bm_faces bm ! i))\<rparr>]\<rparr>)"
  with run have bm': "bm_faces bm' = (bm_faces bm)
                         [i := \<lparr>face_loops = map (\<lambda>l. l\<lparr>loop_uv := uv_of bounds (loop_vert l)\<rparr>)
                                                (face_loops (bm_faces bm ! i))\<rparr>]"
    by auto
  from v ids have "vert_index v \<in> face_vert_ids (bm_faces bm ! i)" by simp
  then obtain l where l: "l \<in> set (face_loops (bm_faces bm ! i))"
      "vert_index (loop_vert l) = vert_index v"
    by (auto simp: face_vert_ids_def)
  have "loop_vert l \<in> V" using ok i l by (auto simp: uvs_ok_def)
  then have "loop_vert l = v" using inj l v sub by (auto dest: inj_onD)
  then have "\<exists>l' \<in> set (face_loops (bm_faces bm' ! i)). loop_vert l' = v"
    using l i bm' by force
  moreover have "i < length (bm_faces bm')" using i bm' by simp
  then have "bm_faces bm' ! i \<in> set (bm_faces bm')" by (rule nth_mem)
  ultimately show ?thesis unfolding has_loop_def by blast
qed

subsection \<open>The cells of the grid\<close>

lemma py_index_in_range:
  "0 \<le> i \<Longrightarrow> i < int (length xs) \<Longrightarrow> py_index xs i = Inr (xs ! nat i)"
  by (simp add: py_index_def)

lemma plane_grid_nth:
  assumes "0 \<le> x" "x \<le> n_of w" "0 \<le> y" "y \<le> n_of h"
  shows "plane_grid w h ! nat y ! nat x = grid_vert w h x y"
proof -
  have "nat y < length (py_range (n_of h + 1))" "nat x < length (py_range (n_of w + 1))"
    using assms by simp_all
  then show ?thesis
    unfolding plane_grid_def using assms
    by (simp add: nth_grid_verts grid_vert_def nth_py_range)
qed

lemma length_plane_grid_rows [simp]: "length (plane_grid w h) = nat (n_of h + 1)"
  by (simp add: plane_grid_def)

lemma length_plane_grid_row:
  "0 \<le> y \<Longrightarrow> y \<le> n_of h \<Longrightarrow> length (plane_grid w h ! nat y) = nat (n_of w + 1)"
  by (simp add: plane_grid_def grid_verts_def)

lemma add_cell_unfold:
  assumes "0 \<le> x" "x < n_of w" "0 \<le> y" "y < n_of h"
  shows "add_cell (plane_grid w h) bounds y x bm =
         for_each (add_tri bounds)
           [[grid_vert w h x y, grid_vert w h (x + 1) y, grid_vert w h x (y + 1)],
            [grid_vert w h (x + 1) y, grid_vert w h (x + 1) (y + 1), grid_vert w h x (y + 1)]] bm"
proof -
  have r0: "py_index (plane_grid w h) y = Inr (plane_grid w h ! nat y)"
    using assms by (intro py_index_in_range) simp_all
  have r1: "py_index (plane_grid w h) (y + 1) = Inr (plane_grid w h ! nat (y + 1))"
    using assms by (intro py_index_in_range) simp_all
  have c00: "py_index (plane_grid w h ! nat y) x = Inr (grid_vert w h x y)"
    using assms py_index_in_range[of x "plane_grid w h ! nat y"]
    by (simp add: length_plane_grid_row plane_grid_nth)
  have c10: "py_index (plane_grid w h ! nat y) (x + 1) = Inr (grid_vert w h (x + 1) y)"
    using assms py_index_in_range[of "x + 1" "plane_grid w h ! nat y"]
    by (simp add: length_plane_grid_row plane_grid_nth)
  have c01: "py_index (plane_grid w h ! nat (y + 1)) x = Inr (grid_vert w h x (y + 1))"
    using assms py_index_in_range[of x "plane_grid w h ! nat (y + 1)"]
    by (simp add: length_plane_grid_row plane_grid_nth)
  have c11: "py_index (plane_grid w h ! nat (y + 1)) (x + 1) = Inr (grid_vert w h (x + 1) (y + 1))"
    using assms py_index_in_range[of "x + 1" "plane_grid w h ! nat (y + 1)"]
    by (simp add: length_plane_grid_row plane_grid_nth)
  show ?thesis
    by (simp add: add_cell_def r0 r1 c00 c10 c01 c11)
qed

lemma grid_index_eq:
  assumes "0 \<le> x" "x \<le> n" "0 \<le> x'" "x' \<le> n" "0 \<le> y" "0 \<le> y'"
    and "nat y * nat (n + 1) + nat x = nat y' * nat (n + 1) + nat x'"
  shows "x = x' \<and> y = y'"
proof -
  define L where "L = nat (n + 1)"
  have lt: "nat x < L" "nat x' < L" using assms by (simp_all add: L_def)
  have e: "nat y * L + nat x = nat y' * L + nat x'" using assms by (simp add: L_def)
  have "(nat y * L + nat x) div L = nat y" "(nat y' * L + nat x') div L = nat y'"
    using lt by simp_all
  with e have y: "nat y = nat y'" by simp
  with e have "nat x = nat x'" by simp
  with y show ?thesis using assms by (simp add: eq_nat_nat_iff)
qed

lemma inj_on_grid_set: "inj_on vert_index (grid_set w h)"
proof (rule inj_onI)
  fix a b
  assume "a \<in> grid_set w h" "b \<in> grid_set w h" and e: "vert_index a = vert_index b"
  then obtain x y x' y' where a: "a = grid_vert w h x y" "0 \<le> x" "x \<le> n_of w" "0 \<le> y"
    and b: "b = grid_vert w h x' y'" "0 \<le> x'" "x' \<le> n_of w" "0 \<le> y'"
    unfolding grid_set_def by blast
  from e have "nat y * nat (n_of w + 1) + nat x = nat y' * nat (n_of w + 1) + nat x'"
    by (simp add: a(1) b(1) grid_vert_def)
  then have "x = x' \<and> y = y'"
    using a b by (intro grid_index_eq) simp_all
  then show "a = b" by (simp add: a(1) b(1))
qed

lemma cell_in_grid_set:
  assumes "0 \<le> x" "x < n_of w" "0 \<le> y" "y < n_of h"
  shows "grid_vert w h x y \<in> grid_set w h" "grid_vert w h (x + 1) y \<in> grid_set w h"
    "grid_vert w h x (y + 1) \<in> grid_set w h" "grid_vert w h (x + 1) (y + 1) \<in> grid_set w h"
proof -
  have "\<And>a b. 0 \<le> a \<Longrightarrow> a \<le> n_of w \<Longrightarrow> 0 \<le> b \<Longrightarrow> b \<le> n_of h
           \<Longrightarrow> grid_vert w h a b \<in> grid_set w h"
    unfolding grid_set_def by blast
  then show "grid_vert w h x y \<in> grid_set w h" "grid_vert w h (x + 1) y \<in> grid_set w h"
    "grid_vert w h x (y + 1) \<in> grid_set w h" "grid_vert w h (x + 1) (y + 1) \<in> grid_set w h"
    using assms by simp_all
qed

lemma cell_tris_distinct:
  assumes "0 \<le> x" "x < n_of w" "0 \<le> y" "y < n_of h"
  shows "distinct (map vert_index
           [grid_vert w h x y, grid_vert w h (x + 1) y, grid_vert w h x (y + 1)])"
    and "distinct (map vert_index
           [grid_vert w h (x + 1) y, grid_vert w h (x + 1) (y + 1), grid_vert w h x (y + 1)])"
proof -
  have a: "grid_vert w h x y \<in> grid_set w h" "grid_vert w h (x + 1) y \<in> grid_set w h"
    "grid_vert w h x (y + 1) \<in> grid_set w h" "grid_vert w h (x + 1) (y + 1) \<in> grid_set w h"
    using cell_in_grid_set[OF assms] by simp_all
  have ne: "vert_index (grid_vert w h a b) \<noteq> vert_index (grid_vert w h a' b')"
    if "0 \<le> a" "a \<le> n_of w" "0 \<le> a'" "a' \<le> n_of w" "0 \<le> b" "0 \<le> b'" "a \<noteq> a' \<or> b \<noteq> b'"
    for a b a' b'
    using that grid_index_eq[of a "n_of w" a' b b'] by (auto simp: grid_vert_def)
  show "distinct (map vert_index
           [grid_vert w h x y, grid_vert w h (x + 1) y, grid_vert w h x (y + 1)])"
    using assms by (simp add: ne)
  show "distinct (map vert_index
           [grid_vert w h (x + 1) y, grid_vert w h (x + 1) (y + 1), grid_vert w h x (y + 1)])"
    using assms by (simp add: ne)
qed

lemma for_each_two:
  "for_each body [a, b] s = Inr t \<longleftrightarrow> (\<exists>u. body a s = Inr u \<and> body b u = Inr t)"
  by (auto split: sum.splits)

lemma add_cell_succeeds:
  assumes nd: "nondegenerate bounds" and r: "0 \<le> x" "x < n_of w" "0 \<le> y" "y < n_of h"
  shows "\<exists>bm'. add_cell (plane_grid w h) bounds y x bm = Inr bm'"
proof -
  from add_tri_succeeds[OF nd cell_tris_distinct(1)[OF r]]
  obtain u where u: "add_tri bounds
      [grid_vert w h x y, grid_vert w h (x + 1) y, grid_vert w h x (y + 1)] bm = Inr u"
    by blast
  from add_tri_succeeds[OF nd cell_tris_distinct(2)[OF r]]
  obtain t where "add_tri bounds
      [grid_vert w h (x + 1) y, grid_vert w h (x + 1) (y + 1), grid_vert w h x (y + 1)] u = Inr t"
    by blast
  with u show ?thesis
    unfolding add_cell_unfold[OF r] by (auto simp: for_each_two)
qed

lemma add_cell_uvs_ok:
  assumes nd: "nondegenerate bounds" and r: "0 \<le> x" "x < n_of w" "0 \<le> y" "y < n_of h"
    and ok: "uvs_ok bounds (grid_set w h) bm"
    and run: "add_cell (plane_grid w h) bounds y x bm = Inr bm'"
  shows "uvs_ok bounds (grid_set w h) bm'"
proof -
  from run obtain u where u: "add_tri bounds
      [grid_vert w h x y, grid_vert w h (x + 1) y, grid_vert w h x (y + 1)] bm = Inr u"
    and t: "add_tri bounds
      [grid_vert w h (x + 1) y, grid_vert w h (x + 1) (y + 1), grid_vert w h x (y + 1)] u = Inr bm'"
    unfolding add_cell_unfold[OF r] for_each_two by blast
  have "uvs_ok bounds (grid_set w h) u"
    by (rule add_tri_uvs_ok[OF nd cell_tris_distinct(1)[OF r] ok _ u])
       (use cell_in_grid_set[OF r] in simp)
  then show ?thesis
    by (rule add_tri_uvs_ok[OF nd cell_tris_distinct(2)[OF r] _ _ t])
       (use cell_in_grid_set[OF r] in simp)
qed

lemma add_cell_has_loop_keep:
  assumes nd: "nondegenerate bounds" and r: "0 \<le> x" "x < n_of w" "0 \<le> y" "y < n_of h"
    and run: "add_cell (plane_grid w h) bounds y x bm = Inr bm'" and has: "has_loop bm v"
  shows "has_loop bm' v"
proof -
  from run obtain u where u: "add_tri bounds
      [grid_vert w h x y, grid_vert w h (x + 1) y, grid_vert w h x (y + 1)] bm = Inr u"
    and t: "add_tri bounds
      [grid_vert w h (x + 1) y, grid_vert w h (x + 1) (y + 1), grid_vert w h x (y + 1)] u = Inr bm'"
    unfolding add_cell_unfold[OF r] for_each_two by blast
  have "has_loop u v"
    by (rule add_tri_has_loop_keep[OF nd cell_tris_distinct(1)[OF r] u has])
  then show ?thesis
    by (rule add_tri_has_loop_keep[OF nd cell_tris_distinct(2)[OF r] t])
qed

lemma add_cell_has_loop_new:
  assumes nd: "nondegenerate bounds" and r: "0 \<le> x" "x < n_of w" "0 \<le> y" "y < n_of h"
    and ok: "uvs_ok bounds (grid_set w h) bm"
    and run: "add_cell (plane_grid w h) bounds y x bm = Inr bm'"
  shows "has_loop bm' (grid_vert w h x y)" "has_loop bm' (grid_vert w h (x + 1) (y + 1))"
proof -
  from run obtain u where u: "add_tri bounds
      [grid_vert w h x y, grid_vert w h (x + 1) y, grid_vert w h x (y + 1)] bm = Inr u"
    and t: "add_tri bounds
      [grid_vert w h (x + 1) y, grid_vert w h (x + 1) (y + 1), grid_vert w h x (y + 1)] u = Inr bm'"
    unfolding add_cell_unfold[OF r] for_each_two by blast
  have s1: "set [grid_vert w h x y, grid_vert w h (x + 1) y, grid_vert w h x (y + 1)]
            \<subseteq> grid_set w h"
    using cell_in_grid_set[OF r] by simp
  have s2: "set [grid_vert w h (x + 1) y, grid_vert w h (x + 1) (y + 1), grid_vert w h x (y + 1)]
            \<subseteq> grid_set w h"
    using cell_in_grid_set[OF r] by simp
  have oku: "uvs_ok bounds (grid_set w h) u"
    by (rule add_tri_uvs_ok[OF nd cell_tris_distinct(1)[OF r] ok s1 u])
  have "has_loop u (grid_vert w h x y)"
    by (rule add_tri_has_loop_new[OF nd cell_tris_distinct(1)[OF r] ok s1 inj_on_grid_set u]) simp
  then show "has_loop bm' (grid_vert w h x y)"
    by (rule add_tri_has_loop_keep[OF nd cell_tris_distinct(2)[OF r] t])
  show "has_loop bm' (grid_vert w h (x + 1) (y + 1))"
    by (rule add_tri_has_loop_new[OF nd cell_tris_distinct(2)[OF r] oku s2 inj_on_grid_set t]) simp
qed

subsection \<open>The whole mesh\<close>

lemma for_each_preserve:
  assumes "for_each body xs s = Inr s'"
    and "\<And>x s t. x \<in> set xs \<Longrightarrow> body x s = Inr t \<Longrightarrow> P s \<Longrightarrow> P t"
    and "P s"
  shows "P s'"
  using assms
proof (induction xs arbitrary: s)
  case Nil
  then show ?case by simp
next
  case (Cons x xs)
  from Cons.prems(1) obtain s1 where s1: "body x s = Inr s1" "for_each body xs s1 = Inr s'"
    by (auto split: sum.splits)
  have s1P: "P s1" using Cons.prems(2)[of x s s1] s1 Cons.prems(3) by simp
  show ?case
  proof (rule Cons.IH[OF s1(2)])
    show "P s1" by (rule s1P)
  next
    fix a u t
    assume "a \<in> set xs" "body a u = Inr t" "P u"
    then show "P t" using Cons.prems(2)[of a u t] by simp
  qed
qed

lemma plane_bounds_nondegenerate: "w \<noteq> 0 \<Longrightarrow> h \<noteq> 0 \<Longrightarrow> nondegenerate (plane_bounds w h)"
  by (simp add: nondegenerate_def plane_bounds_def)

lemma plane_bmesh_rows:
  "plane_bmesh w h =
     for_each (cell_row w h) (py_range (n_of h))
       \<lparr>bm_verts = concat (plane_grid w h), bm_faces = [], bm_uv_layers = [''UVMap'']\<rparr>"
  by (simp add: plane_bmesh_unfold cell_row_def[abs_def])

lemma cell_row_succeeds:
  assumes "w \<noteq> 0" "h \<noteq> 0" "0 \<le> y" "y < n_of h"
  shows "\<exists>bm'. cell_row w h y bm = Inr bm'"
proof -
  have "\<exists>s'. for_each (\<lambda>x. add_cell (plane_grid w h) (plane_bounds w h) y x)
                (py_range (n_of w)) bm = Inr s' \<and> True"
    by (rule for_each_invariant)
       (use assms add_cell_succeeds[OF plane_bounds_nondegenerate] in auto)
  then show ?thesis by (simp add: cell_row_def)
qed

lemma cell_row_uvs_ok:
  assumes "w \<noteq> 0" "h \<noteq> 0" "0 \<le> y" "y < n_of h"
    and "cell_row w h y bm = Inr bm'" "uvs_ok (plane_bounds w h) (grid_set w h) bm"
  shows "uvs_ok (plane_bounds w h) (grid_set w h) bm'"
  using assms(5) unfolding cell_row_def
proof (rule for_each_preserve)
  show "uvs_ok (plane_bounds w h) (grid_set w h) bm" by fact
next
  fix x s t
  assume "x \<in> set (py_range (n_of w))"
    "add_cell (plane_grid w h) (plane_bounds w h) y x s = Inr t"
    "uvs_ok (plane_bounds w h) (grid_set w h) s"
  then show "uvs_ok (plane_bounds w h) (grid_set w h) t"
    using add_cell_uvs_ok[OF plane_bounds_nondegenerate, of w h x w y h s t] assms by simp
qed

lemma cell_row_has_loop_keep:
  assumes "w \<noteq> 0" "h \<noteq> 0" "0 \<le> y" "y < n_of h"
    and "cell_row w h y bm = Inr bm'" "has_loop bm v"
  shows "has_loop bm' v"
  using assms(5) unfolding cell_row_def
proof (rule for_each_preserve)
  show "has_loop bm v" by fact
next
  fix x s t
  assume "x \<in> set (py_range (n_of w))"
    "add_cell (plane_grid w h) (plane_bounds w h) y x s = Inr t" "has_loop s v"
  then show "has_loop t v"
    using add_cell_has_loop_keep[OF plane_bounds_nondegenerate, of w h x w y h s t v] assms by simp
qed

lemma cell_row_has_loop_new:
  assumes nz: "w \<noteq> 0" "h \<noteq> 0" and y: "0 \<le> y" "y < n_of h" and x: "0 \<le> x" "x < n_of w"
    and run: "cell_row w h y bm = Inr bm'" and ok: "uvs_ok (plane_bounds w h) (grid_set w h) bm"
  shows "has_loop bm' (grid_vert w h x y) \<and> has_loop bm' (grid_vert w h (x + 1) (y + 1))"
  using run unfolding cell_row_def
proof (rule for_each_establish[where ?x0.0 = x
        and P = "uvs_ok (plane_bounds w h) (grid_set w h)"])
  show "x \<in> set (py_range (n_of w))" using x by simp
  show "uvs_ok (plane_bounds w h) (grid_set w h) bm" by fact
next
  fix a s t
  assume "a \<in> set (py_range (n_of w))"
    "add_cell (plane_grid w h) (plane_bounds w h) y a s = Inr t"
    "uvs_ok (plane_bounds w h) (grid_set w h) s"
  then show "uvs_ok (plane_bounds w h) (grid_set w h) t"
    using add_cell_uvs_ok[OF plane_bounds_nondegenerate, of w h a w y h s t] nz y by simp
next
  fix s t
  assume "add_cell (plane_grid w h) (plane_bounds w h) y x s = Inr t"
    "uvs_ok (plane_bounds w h) (grid_set w h) s"
  then show "has_loop t (grid_vert w h x y) \<and> has_loop t (grid_vert w h (x + 1) (y + 1))"
    using add_cell_has_loop_new[OF plane_bounds_nondegenerate, of w h x w y h s t] nz y x by simp
next
  fix a s t
  assume "a \<in> set (py_range (n_of w))"
    "add_cell (plane_grid w h) (plane_bounds w h) y a s = Inr t"
    "has_loop s (grid_vert w h x y) \<and> has_loop s (grid_vert w h (x + 1) (y + 1))"
  then show "has_loop t (grid_vert w h x y) \<and> has_loop t (grid_vert w h (x + 1) (y + 1))"
    using add_cell_has_loop_keep[OF plane_bounds_nondegenerate, of w h a w y h s t] nz y by simp
qed

lemma uvs_ok_start:
  "uvs_ok bounds V \<lparr>bm_verts = vs, bm_faces = [], bm_uv_layers = ls\<rparr>"
  by (simp add: uvs_ok_def)

text \<open>The geometry is built without an exception, whatever the size.\<close>

lemma plane_bmesh_total:
  "\<exists>bm. plane_bmesh w h = Inr bm \<and> uvs_ok (plane_bounds w h) (grid_set w h) bm"
proof (cases "w \<le> 0 \<or> h \<le> 0")
  case True
  then show ?thesis by (simp add: plane_bmesh_degenerate uvs_ok_def)
next
  case False
  then have nz: "w \<noteq> 0" "h \<noteq> 0" by auto
  show ?thesis
    unfolding plane_bmesh_rows
  proof (rule for_each_invariant)
    show "uvs_ok (plane_bounds w h) (grid_set w h)
           \<lparr>bm_verts = concat (plane_grid w h), bm_faces = [], bm_uv_layers = [''UVMap'']\<rparr>"
      by (rule uvs_ok_start)
  next
    fix y s
    assume y: "y \<in> set (py_range (n_of h))" and ok: "uvs_ok (plane_bounds w h) (grid_set w h) s"
    then obtain t where t: "cell_row w h y s = Inr t"
      using cell_row_succeeds[OF nz, of y s] by auto
    then have "uvs_ok (plane_bounds w h) (grid_set w h) t"
      using cell_row_uvs_ok[OF nz _ _ t ok] y by simp
    with t show "\<exists>s'. cell_row w h y s = Inr s' \<and> uvs_ok (plane_bounds w h) (grid_set w h) s'"
      by blast
  qed
qed

lemma plane_bmesh_has_loop:
  assumes nz: "w \<noteq> 0" "h \<noteq> 0" and y: "0 \<le> y" "y < n_of h" and x: "0 \<le> x" "x < n_of w"
    and run: "plane_bmesh w h = Inr bm"
  shows "has_loop bm (grid_vert w h x y) \<and> has_loop bm (grid_vert w h (x + 1) (y + 1))"
  using run unfolding plane_bmesh_rows
proof (rule for_each_establish[where ?x0.0 = y
        and P = "uvs_ok (plane_bounds w h) (grid_set w h)"])
  show "y \<in> set (py_range (n_of h))" using y by simp
  show "uvs_ok (plane_bounds w h) (grid_set w h)
           \<lparr>bm_verts = concat (plane_grid w h), bm_faces = [], bm_uv_layers = [''UVMap'']\<rparr>"
    by (rule uvs_ok_start)
next
  fix a s t
  assume "a \<in> set (py_range (n_of h))" "cell_row w h a s = Inr t"
    "uvs_ok (plane_bounds w h) (grid_set w h) s"
  then show "uvs_ok (plane_bounds w h) (grid_set w h) t"
    using cell_row_uvs_ok[OF nz, of a s t] by simp
next
  fix s t
  assume "cell_row w h y s = Inr t" "uvs_ok (plane_bounds w h) (grid_set w h) s"
  then show "has_loop t (grid_vert w h x y) \<and> has_loop t (grid_vert w h (x + 1) (y + 1))"
    using cell_row_has_loop_new[OF nz y x] by simp
next
  fix a s t
  assume "a \<in> set (py_range (n_of h))" "cell_row w h a s = Inr t"
    "has_loop s (grid_vert w h x y) \<and> has_loop s (grid_vert w h (x + 1) (y + 1))"
  then show "has_loop t (grid_vert w h x y) \<and> has_loop t (grid_vert w h (x + 1) (y + 1))"
    using cell_row_has_loop_keep[OF nz, of a s t] by simp
qed

lemma uv_of_grid_vert:
  "w \<noteq> 0 \<Longrightarrow> h \<noteq> 0 \<Longrightarrow>
   uv_of (plane_bounds w h) (grid_vert w h x y)
   = (of_int x * PLANE_SUBDIVISION_SIZE / w, of_int y * PLANE_SUBDIVISION_SIZE / h)"
  by (simp add: uv_of_def plane_bounds_def grid_vert_def plane_co_def)

lemma created_mesh_plane:
  "\<exists>bm. plane_bmesh w h = Inr bm
        \<and> created_mesh (create_subdivided_plane_bmesh w h name d) = Some bm"
proof -
  from plane_bmesh_total[of w h] obtain bm where bm: "plane_bmesh w h = Inr bm" by blast
  from create_subdivided_plane_bmesh_mesh[OF bm, of name d]
  have "created_mesh (create_subdivided_plane_bmesh w h name d) = Some bm"
    by (auto simp: created_mesh_def)
  with bm show ?thesis by blast
qed

lemma set_concat_plane_grid: "set (concat (plane_grid w h)) \<subseteq> grid_set w h"
proof
  fix v
  assume "v \<in> set (concat (plane_grid w h))"
  then obtain row where "row \<in> set (plane_grid w h)" "v \<in> set row" by auto
  then obtain j i where j: "j < length (plane_grid w h)" and i: "i < length (plane_grid w h ! j)"
    and v: "v = plane_grid w h ! j ! i"
    by (metis in_set_conv_nth)
  have jr: "0 \<le> int j" "int j \<le> n_of h" using j by simp_all
  have "length (plane_grid w h ! nat (int j)) = nat (n_of w + 1)"
    by (rule length_plane_grid_row[OF jr])
  then have ir: "0 \<le> int i" "int i \<le> n_of w" using i by simp_all
  have "plane_grid w h ! nat (int j) ! nat (int i) = grid_vert w h (int i) (int j)"
    by (rule plane_grid_nth[OF ir jr])
  then have "v = grid_vert w h (int i) (int j)" using v by simp
  then show "v \<in> grid_set w h" unfolding grid_set_def using ir jr by blast
qed

text \<open>
  Claim C5.  For positive width and height, \<open>create_subdivided_plane_bmesh\<close> returns
  an object whose mesh has exactly \<open>(round(w/step) + 1) * (round(h/step) + 1)\<close>
  vertices, \<open>step\<close> being \<open>PLANE_SUBDIVISION_SIZE\<close> and \<open>round\<close> rounding to the
  nearest integer; no size raises an exception, whatever the remainder of \<open>w/step\<close>.
\<close>

theorem primary_mesh_vertex_count:
  assumes "0 < w" and "0 < h"
  shows "\<exists>bm. created_mesh (create_subdivided_plane_bmesh w h name d) = Some bm
           \<and> int (length (bm_verts bm))
             = (py_round (w / PLANE_SUBDIVISION_SIZE) + 1) * (py_round (h / PLANE_SUBDIVISION_SIZE) + 1)"
proof -
  from created_mesh_plane[of w h name d] obtain bm where bm: "plane_bmesh w h = Inr bm"
    "created_mesh (create_subdivided_plane_bmesh w h name d) = Some bm"
    by blast
  have "0 \<le> n_of w" "0 \<le> n_of h" using assms by (simp_all add: n_of_nonneg)
  then have "int (length (bm_verts bm)) = (n_of w + 1) * (n_of h + 1)"
    by (simp add: plane_bmesh_verts[OF bm(1)] length_plane_grid)
  with bm(2) show ?thesis by (auto simp: n_of_def)
qed

theorem primary_mesh_vertex_count_witness:
  "(0::rat) < 3 / 5 \<and> (0::rat) < 2 / 5
   \<and> (\<exists>bm. created_mesh (create_subdivided_plane_bmesh (3 / 5) (2 / 5) ''Plane'' empty_document) = Some bm
         \<and> int (length (bm_verts bm)) = 12)"
proof -
  have "py_round ((3 / 5) / PLANE_SUBDIVISION_SIZE) = 3" "py_round ((2 / 5) / PLANE_SUBDIVISION_SIZE) = 2"
    by (simp_all add: PLANE_SUBDIVISION_SIZE_def py_round_def)
  then show ?thesis
    using primary_mesh_vertex_count[of "3 / 5" "2 / 5" "''Plane''" empty_document] by simp
qed

text \<open>
  Claim C9.  When the width or the height is zero or negative,
  \<open>create_subdivided_plane_bmesh\<close> returns normally, and the mesh of the object it
  returns has no face: the face loops are empty, so the division of the UV
  normalisation is never reached.
\<close>

theorem degenerate_size_no_faces:
  assumes "w \<le> 0 \<or> h \<le> 0"
  shows "\<exists>bm. created_mesh (create_subdivided_plane_bmesh w h name d) = Some bm
           \<and> bm_faces bm = []"
proof -
  from created_mesh_plane[of w h name d] obtain bm where bm: "plane_bmesh w h = Inr bm"
    "created_mesh (create_subdivided_plane_bmesh w h name d) = Some bm"
    by blast
  from bm(1) have "bm_faces bm = []"
    by (auto simp: plane_bmesh_degenerate[OF assms])
  with bm(2) show ?thesis by blast
qed

theorem degenerate_size_no_faces_witness:
  "((0::rat) \<le> 0 \<or> (1 / 5 :: rat) \<le> 0)
   \<and> (\<exists>bm. created_mesh (create_subdivided_plane_bmesh 0 (1 / 5) ''Plane'' empty_document) = Some bm
         \<and> bm_faces bm = [])"
  using degenerate_size_no_faces[of 0 "1 / 5" "''Plane''" empty_document] by simp

text \<open>
  Claim C1.  The docstring and the comment above \<open>create_subdivided_plane_bmesh\<close>
  announce UVs by "Project from View (Bounds)", which maps the bounding box of the mesh
  onto the unit square, and claim C1 says the same.  The code normalises against
  \<open>[-width/2, width/2] \<times> [-height/2, height/2]\<close> instead, which is the bounding box of
  the grid only when the size is a whole number of cells.  A width of 35 cm at a height
  of 20 cm is rounded to two cells of 20 cm: the columns of vertices lie at
  \<open>x = -0.175\<close>, \<open>0.025\<close> and \<open>0.225\<close>, the last one beyond \<open>width / 2 = 0.175\<close>, and
  their loops get \<open>u = 0\<close>, \<open>4/7\<close> and \<open>8/7\<close>, where the bounding box of the mesh would
  give \<open>0\<close>, \<open>1/2\<close> and \<open>1\<close>.
\<close>

theorem uvs_of_35cm_plane:
  "map_option loop_table
     (created_mesh (create_subdivided_plane_bmesh (7 / 20) (1 / 5) ''Plane'' empty_document))
   = Some
      [((- (7 / 40), - (1 / 10), 0), 0, 0), ((1 / 40, - (1 / 10), 0), 4 / 7, 0),
       ((- (7 / 40), 1 / 10, 0), 0, 1), ((1 / 40, - (1 / 10), 0), 4 / 7, 0),
       ((1 / 40, 1 / 10, 0), 4 / 7, 1), ((- (7 / 40), 1 / 10, 0), 0, 1),
       ((1 / 40, - (1 / 10), 0), 4 / 7, 0), ((9 / 40, - (1 / 10), 0), 8 / 7, 0),
       ((1 / 40, 1 / 10, 0), 4 / 7, 1), ((9 / 40, - (1 / 10), 0), 8 / 7, 0),
       ((9 / 40, 1 / 10, 0), 8 / 7, 1), ((1 / 40, 1 / 10, 0), 4 / 7, 1)]"
  by code_simp

text \<open>So the UVs of that mesh do not all lie in the unit square.\<close>

lemma uv_outside_unit_square:
  "map_option uvs_in_unit_square
     (created_mesh (create_subdivided_plane_bmesh (7 / 20) (1 / 5) ''Plane'' empty_document))
   = Some False"
  by code_simp

text \<open>
  The defect does not show on a size that is a whole number of cells, as every
  configured size is: there the grid spans the rectangle, each UV is the position of
  its vertex normalised linearly against \<open>[-width/2, width/2] \<times> [-height/2, height/2]\<close>
  and lies in the unit square, and the loops at the corners \<open>(-width/2, -height/2)\<close> and
  \<open>(width/2, height/2)\<close> carry the UVs \<open>(0, 0)\<close> and \<open>(1, 1)\<close>.
\<close>

lemma uvs_of_whole_cell_planes:
  assumes k: "0 < k" and m: "0 < m"
    and w: "w = of_int k * PLANE_SUBDIVISION_SIZE" and h: "h = of_int m * PLANE_SUBDIVISION_SIZE"
  shows "\<exists>bm. created_mesh (create_subdivided_plane_bmesh w h name d) = Some bm
           \<and> (\<forall>f \<in> set (bm_faces bm). \<forall>l \<in> set (face_loops f).
                 loop_uv l = uv_of (- w / 2, w / 2, - h / 2, h / 2) (loop_vert l))
           \<and> uvs_in_unit_square bm
           \<and> (\<forall>v \<in> set (bm_verts bm).
                 case vert_co v of (vx, vy, vz) \<Rightarrow>
                   - w / 2 \<le> vx \<and> vx \<le> w / 2 \<and> - h / 2 \<le> vy \<and> vy \<le> h / 2)
           \<and> loop_at bm (- w / 2, - h / 2, 0) (0, 0)
           \<and> loop_at bm (w / 2, h / 2, 0) (1, 1)"
proof -
  have S: "0 < PLANE_SUBDIVISION_SIZE" by (simp add: PLANE_SUBDIVISION_SIZE_def)
  have nz: "w \<noteq> 0" "h \<noteq> 0" and pos: "0 < w" "0 < h" using k m S by (simp_all add: w h)
  have n: "n_of w = k" "n_of h = m" using S by (simp_all add: n_of_def w h)
  from created_mesh_plane[of w h name d] obtain bm where bm: "plane_bmesh w h = Inr bm"
    "created_mesh (create_subdivided_plane_bmesh w h name d) = Some bm"
    by blast
  have ok: "uvs_ok (plane_bounds w h) (grid_set w h) bm"
    using plane_bmesh_total[of w h] bm(1) by simp
  have uv: "uv_of (plane_bounds w h) (grid_vert w h x y) = (of_int x / of_int k, of_int y / of_int m)"
    for x y
    using S by (simp add: uv_of_grid_vert[OF nz]) (simp add: w h)
  have unit: "in_unit_square (of_int x / of_int k, of_int y / of_int m)"
    if "0 \<le> x" "x \<le> k" "0 \<le> y" "y \<le> m" for x y
    using that k m by (simp add: in_unit_square_def)
  have 1: "\<forall>f \<in> set (bm_faces bm). \<forall>l \<in> set (face_loops f).
             loop_uv l = uv_of (- w / 2, w / 2, - h / 2, h / 2) (loop_vert l)"
    using ok by (simp add: uvs_ok_def plane_bounds_def)
  have 2: "uvs_in_unit_square bm"
    unfolding uvs_in_unit_square_def
  proof (intro ballI)
    fix f l
    assume "f \<in> set (bm_faces bm)" "l \<in> set (face_loops f)"
    then have "loop_vert l \<in> grid_set w h" and l: "loop_uv l = uv_of (plane_bounds w h) (loop_vert l)"
      using ok by (auto simp: uvs_ok_def)
    then obtain x y where "loop_vert l = grid_vert w h x y" "0 \<le> x" "x \<le> k" "0 \<le> y" "y \<le> m"
      unfolding grid_set_def n by blast
    then show "in_unit_square (loop_uv l)" using unit[of x y] by (simp add: l uv)
  qed
  have 3: "\<forall>v \<in> set (bm_verts bm).
             case vert_co v of (vx, vy, vz) \<Rightarrow>
               - w / 2 \<le> vx \<and> vx \<le> w / 2 \<and> - h / 2 \<le> vy \<and> vy \<le> h / 2"
  proof
    fix v
    assume "v \<in> set (bm_verts bm)"
    then have "v \<in> grid_set w h"
      using set_concat_plane_grid[of w h] by (auto simp: plane_bmesh_verts[OF bm(1)])
    then obtain x y where v: "v = grid_vert w h x y" and r: "0 \<le> x" "x \<le> k" "0 \<le> y" "y \<le> m"
      unfolding grid_set_def n by blast
    have "(of_int x :: rat) \<le> of_int k" "(of_int y :: rat) \<le> of_int m" "(0::rat) \<le> of_int x"
      "(0::rat) \<le> of_int y"
      using r by simp_all
    then have "of_int x * PLANE_SUBDIVISION_SIZE \<le> w" "of_int y * PLANE_SUBDIVISION_SIZE \<le> h"
      "0 \<le> of_int x * PLANE_SUBDIVISION_SIZE" "0 \<le> of_int y * PLANE_SUBDIVISION_SIZE"
      using S by (simp_all add: w h)
    then show "case vert_co v of (vx, vy, vz) \<Rightarrow>
               - w / 2 \<le> vx \<and> vx \<le> w / 2 \<and> - h / 2 \<le> vy \<and> vy \<le> h / 2"
      by (simp add: v grid_vert_def plane_co_def)
  qed
  have c0: "has_loop bm (grid_vert w h 0 0)"
    using plane_bmesh_has_loop[OF nz _ _ _ _ bm(1), of 0 0] k m by (simp add: n)
  have c1: "has_loop bm (grid_vert w h k m)"
    using plane_bmesh_has_loop[OF nz _ _ _ _ bm(1), of "m - 1" "k - 1"] k m by (simp add: n)
  have at: "loop_at bm (vert_co (grid_vert w h x y)) (of_int x / of_int k, of_int y / of_int m)"
    if "has_loop bm (grid_vert w h x y)" for x y
  proof -
    from that obtain f l where fl: "f \<in> set (bm_faces bm)" "l \<in> set (face_loops f)"
      "loop_vert l = grid_vert w h x y"
      unfolding has_loop_def by blast
    then have "loop_uv l = (of_int x / of_int k, of_int y / of_int m)"
      using ok uv[of x y] by (auto simp: uvs_ok_def)
    with fl show ?thesis unfolding loop_at_def by force
  qed
  have 4: "loop_at bm (- w / 2, - h / 2, 0) (0, 0)"
    using at[OF c0] by (simp add: grid_vert_def plane_co_def)
  have "vert_co (grid_vert w h k m) = (w / 2, h / 2, 0)"
    by (simp add: grid_vert_def plane_co_def w h)
  then have 5: "loop_at bm (w / 2, h / 2, 0) (1, 1)"
    using at[OF c1] k m by simp
  from bm(2) 1 2 3 4 5 show ?thesis by blast
qed

lemma uvs_of_whole_cell_planes_witness:
  "(0::int) < 2 \<and> (0::int) < 1
   \<and> (2 / 5 :: rat) = of_int 2 * PLANE_SUBDIVISION_SIZE
   \<and> (1 / 5 :: rat) = of_int 1 * PLANE_SUBDIVISION_SIZE
   \<and> (\<exists>bm. created_mesh (create_subdivided_plane_bmesh (2 / 5) (1 / 5) ''Plane'' empty_document) = Some bm
         \<and> length (bm_faces bm) = 4 \<and> length (bm_verts bm) = 6
         \<and> uvs_in_unit_square bm
         \<and> loop_at bm (- (2 / 5) / 2, - (1 / 5) / 2, 0) (0, 0)
         \<and> loop_at bm ((2 / 5) / 2, (1 / 5) / 2, 0) (1, 1))"
proof -
  have hyp: "(2 / 5 :: rat) = of_int 2 * PLANE_SUBDIVISION_SIZE"
    "(1 / 5 :: rat) = of_int 1 * PLANE_SUBDIVISION_SIZE"
    by (simp_all add: PLANE_SUBDIVISION_SIZE_def)
  have size: "map_option (\<lambda>bm. (length (bm_faces bm), length (bm_verts bm)))
          (created_mesh (create_subdivided_plane_bmesh (2 / 5) (1 / 5) ''Plane'' empty_document))
        = Some (4, 6)"
    by code_simp
  from uvs_of_whole_cell_planes[OF _ _ hyp, of "''Plane''" empty_document]
  obtain bm where bm:
    "created_mesh (create_subdivided_plane_bmesh (2 / 5) (1 / 5) ''Plane'' empty_document) = Some bm"
    "uvs_in_unit_square bm"
    "loop_at bm (- (2 / 5) / 2, - (1 / 5) / 2, 0) (0, 0)"
    "loop_at bm ((2 / 5) / 2, (1 / 5) / 2, 0) (1, 1)"
    by auto
  from size bm(1) have "length (bm_faces bm) = 4 \<and> length (bm_verts bm) = 6" by simp
  with bm have ex: "\<exists>bm. created_mesh (create_subdivided_plane_bmesh (2 / 5) (1 / 5) ''Plane'' empty_document) = Some bm
         \<and> length (bm_faces bm) = 4 \<and> length (bm_verts bm) = 6
         \<and> uvs_in_unit_square bm
         \<and> loop_at bm (- (2 / 5) / 2, - (1 / 5) / 2, 0) (0, 0)
         \<and> loop_at bm ((2 / 5) / 2, (1 / 5) / 2, 0) (1, 1)"
    by blast
  show ?thesis
    by (intro conjI) (simp, simp, rule hyp(1), rule hyp(2), rule ex)
qed

lemma set_itertools_product: "set (itertools_product xs ys) = set xs \<times> set ys"
  by (induction xs) auto

lemma distinct_itertools_product:
  "distinct xs \<Longrightarrow> distinct ys \<Longrightarrow> distinct (itertools_product xs ys)"
  by (induction xs) (auto simp: distinct_map inj_on_def set_itertools_product)

text \<open>
  Claim C6.  The pairs the creation loop iterates over are exactly the ordered pairs
  of configured sizes, scaled from centimetres to metres: every pair of two sizes
  (equal or not, in both orders) occurs, each once, and nothing else.
\<close>

theorem size_pairs_cross_product:
  "set PLANE_SIZE_PAIRS
     = (\<lambda>s. of_int s / 100) ` set PLANE_SIZES_CM \<times> (\<lambda>s. of_int s / 100) ` set PLANE_SIZES_CM
   \<and> distinct PLANE_SIZE_PAIRS
   \<and> length PLANE_SIZE_PAIRS = length PLANE_SIZES_CM * length PLANE_SIZES_CM"
proof -
  have "distinct PLANE_SIZES_M"
    by (simp add: PLANE_SIZES_M_def PLANE_SIZES_CM_def)
  moreover have "length (itertools_product xs ys) = length xs * length ys"
    for xs :: "rat list" and ys :: "rat list"
    by (induction xs) simp_all
  ultimately show ?thesis
    by (simp add: PLANE_SIZE_PAIRS_def set_itertools_product distinct_itertools_product)
       (simp add: PLANE_SIZES_M_def)
qed

subsection \<open>Cleanup\<close>

lemma drop_links_empty [simp]: "drop_links {} {} c = c"
  by (simp add: drop_links_def)

lemma cleaned_empty [simp]: "cleaned {} {} d = d"
  by (simp add: cleaned_def case_prod_beta')

lemma removeAll_as_filter: "removeAll n xs = filter (\<lambda>x. x \<noteq> n) xs"
  by (induction xs) auto

lemma objects_remove_cleaned:
  "objects_remove n (cleaned R M d) = cleaned R (insert n M) d"
  by (auto simp: objects_remove_def cleaned_def drop_links_def removeAll_as_filter
      case_prod_beta' intro!: filter_cong)

lemma collections_remove_cleaned:
  "collections_remove n (cleaned R M d) = cleaned (insert n R) M d"
proof -
  have "filter (\<lambda>x. fst x \<noteq> n) (filter (\<lambda>x. fst x \<notin> R) xs)
        = filter (\<lambda>x. fst x \<noteq> n \<and> fst x \<notin> R) xs" for xs :: "(string \<times> collection) list"
    by (induction xs) auto
  then show ?thesis
    by (auto simp: collections_remove_def cleaned_def drop_links_def removeAll_as_filter
        case_prod_beta' filter_map comp_def intro!: filter_cong)
qed

lemma fold_objects_remove:
  "fold (\<lambda>(n, ob) d'. if obj_type ob = ''MESH'' then objects_remove n d' else d') obs (cleaned R M d)
   = cleaned R (M \<union> mesh_names obs) d"
proof (induction obs arbitrary: M)
  case Nil
  then show ?case by (simp add: mesh_names_def)
next
  case (Cons p obs)
  obtain n ob where p: "p = (n, ob)" by (cases p)
  show ?case
  proof (cases "obj_type ob = ''MESH''")
    case True
    then have "mesh_names (p # obs) = insert n (mesh_names obs)"
      by (auto simp: mesh_names_def p)
    then show ?thesis using True by (simp add: p objects_remove_cleaned Cons.IH)
  next
    case False
    then have "mesh_names (p # obs) = mesh_names obs"
      by (auto simp: mesh_names_def p)
    then show ?thesis using False by (simp add: p Cons.IH)
  qed
qed

lemma fold_collections_remove:
  "fold collections_remove ns (cleaned R M d) = cleaned (R \<union> set ns) M d"
  by (induction ns arbitrary: R) (simp_all add: collections_remove_cleaned)

lemma cleanup_cleaned:
  "cleanup d = cleaned (generated_keys (collections d)) (mesh_names (objects d)) d"
proof -
  have "fold (\<lambda>(n, ob) d'. if obj_type ob = ''MESH'' then objects_remove n d' else d')
          (objects d) (cleaned {} {} d) = cleaned {} (mesh_names (objects d)) d"
    by (simp only: fold_objects_remove) simp
  moreover have "set (filter generated_name (map fst (collections d))) = generated_keys (collections d)"
    by (auto simp: generated_keys_def)
  ultimately show ?thesis
    by (simp add: cleanup_def Let_def fold_collections_remove)
qed

lemma in_cleaned_collections:
  "(k, c') \<in> set (collections (cleaned R M d))
   \<longleftrightarrow> (\<exists>c. (k, c) \<in> set (collections d) \<and> k \<notin> R \<and> c' = drop_links R M c)"
  by (auto simp: cleaned_def)

lemma in_cleaned_objects:
  "(k, ob) \<in> set (objects (cleaned R M d)) \<longleftrightarrow> (k, ob) \<in> set (objects d) \<and> k \<notin> M"
  by (auto simp: cleaned_def)

lemma cleaned_object_keys:
  "fst ` set (objects (cleaned R M d)) = fst ` set (objects d) - M"
  by (force simp: in_cleaned_objects)

lemma cleaned_collection_keys:
  "fst ` set (collections (cleaned R M d)) = fst ` set (collections d) - R"
proof -
  have "map fst (collections (cleaned R M d)) = filter (\<lambda>k. k \<notin> R) (map fst (collections d))"
    by (simp add: cleaned_def filter_map comp_def case_prod_beta')
  then have "set (map fst (collections (cleaned R M d))) = set (map fst (collections d)) - R"
    by (simp only: set_filter) blast
  then show ?thesis by simp
qed

lemma cleanup_clean:
  assumes "well_formed d"
  shows "clean (cleanup d)"
proof -
  define R where "R = generated_keys (collections d)"
  define M where "M = mesh_names (objects d)"
  define e where "e = cleaned R M d"
  have R: "\<not> generated_name n" if "n \<in> fst ` set (collections d)" "n \<notin> R" for n
    using that by (simp add: R_def generated_keys_def)
  have M: "obj_type ob \<noteq> ''MESH''" if "(n, ob) \<in> set (objects d)" "n \<notin> M" for n ob
    using that unfolding M_def mesh_names_def by blast
  from assms have sc: "set (col_children (scene_collection d)) \<subseteq> fst ` set (collections d)"
    and so: "set (col_objects (scene_collection d)) \<subseteq> fst ` set (objects d)"
    and cc: "\<And>k c. (k, c) \<in> set (collections d) \<Longrightarrow> set (col_children c) \<subseteq> fst ` set (collections d)"
    and co: "\<And>k c. (k, c) \<in> set (collections d) \<Longrightarrow> set (col_objects c) \<subseteq> fst ` set (objects d)"
    unfolding well_formed_def by blast+
  have children: "\<not> generated_name n"
    if "set (col_children c) \<subseteq> fst ` set (collections d)" "n \<in> set (col_children (drop_links R M c))"
    for c n
  proof -
    from that have "n \<in> fst ` set (collections d)" "n \<notin> R"
      by (auto simp: drop_links_def)
    then show ?thesis by (rule R)
  qed
  have linked: "set (col_objects (drop_links R M c)) \<subseteq> fst ` set (objects e)"
    if "set (col_objects c) \<subseteq> fst ` set (objects d)" for c
    using that unfolding e_def cleaned_object_keys by (auto simp: drop_links_def)
  have 1: "\<forall>k \<in> fst ` set (collections e). \<not> generated_name k"
    unfolding e_def cleaned_collection_keys using R by blast
  have 2: "\<forall>n \<in> set (col_children (scene_collection e)). \<not> generated_name n"
    using children[OF sc] by (simp add: e_def cleaned_def)
  have 3: "\<forall>(k, c) \<in> set (collections e). \<forall>n \<in> set (col_children c). \<not> generated_name n"
  proof (intro ballI, clarify)
    fix k c n
    assume "(k, c) \<in> set (collections e)" "n \<in> set (col_children c)"
    then obtain c0 where "(k, c0) \<in> set (collections d)" "n \<in> set (col_children (drop_links R M c0))"
      unfolding e_def in_cleaned_collections by blast
    then show "generated_name n \<Longrightarrow> False" using children[OF cc] by blast
  qed
  have 4: "\<forall>(k, ob) \<in> set (objects e). obj_type ob \<noteq> ''MESH''"
    unfolding e_def using M by (auto simp: in_cleaned_objects)
  have 5: "set (col_objects (scene_collection e)) \<subseteq> fst ` set (objects e)"
    using linked[OF so] by (simp add: e_def cleaned_def)
  have 6: "\<forall>(k, c) \<in> set (collections e). set (col_objects c) \<subseteq> fst ` set (objects e)"
  proof (intro ballI, clarify)
    fix k c n
    assume "(k, c) \<in> set (collections e)" "n \<in> set (col_objects c)"
    then obtain c0 where "(k, c0) \<in> set (collections d)" "n \<in> set (col_objects (drop_links R M c0))"
      unfolding e_def in_cleaned_collections by blast
    then show "n \<in> fst ` set (objects e)" using linked[OF co] by blast
  qed
  have "clean e" unfolding clean_def using 1 2 3 4 5 6 by blast
  then show ?thesis by (simp add: cleanup_cleaned e_def R_def M_def)
qed

subsection \<open>Generated names\<close>

lemma x_not_digit: "CHR ''x'' \<notin> set ''0123456789''"
  by simp

lemma py_str_nonneg: "0 \<le> w \<Longrightarrow> py_str w = str_nat (nat w)"
  by (simp add: py_str_def)

lemma isdigit_py_str: "0 \<le> w \<Longrightarrow> isdigit (py_str w)"
  by (simp add: py_str_nonneg)

lemma py_int_py_str: "0 \<le> w \<Longrightarrow> py_int (py_str w) = w"
  by (simp add: py_str_nonneg py_int_str_nat)

lemma py_str_inj: "0 \<le> w \<Longrightarrow> 0 \<le> w' \<Longrightarrow> py_str w = py_str w' \<Longrightarrow> w = w'"
  by (metis py_int_py_str)

lemma isdigit_no_x: "isdigit s \<Longrightarrow> CHR ''x'' \<notin> set s"
  unfolding isdigit_def using x_not_digit by blast

lemma x_in_size_name: "CHR ''x'' \<in> set (size_name w h)"
  by (simp add: size_name_def)

lemma size_name_not_digit: "\<not> isdigit (size_name w h)"
  using isdigit_no_x x_in_size_name by blast

lemma generated_py_str: "0 \<le> w \<Longrightarrow> generated_name (py_str w)"
  by (simp add: generated_name_def isdigit_py_str)

lemma generated_size_name: "generated_name (size_name w h)"
  by (simp add: generated_name_def x_in_size_name)

lemma size_name_neq_py_str: "0 \<le> w' \<Longrightarrow> size_name w h \<noteq> py_str w'"
  using isdigit_py_str size_name_not_digit by metis

lemma split_on_none: "c \<notin> set s \<Longrightarrow> split_on c s = [s]"
  by (induction s) auto

lemma split_on_first: "c \<notin> set a \<Longrightarrow> split_on c (a @ c # b) = a # split_on c b"
  by (induction a) auto

lemma split_size_name:
  "0 \<le> w \<Longrightarrow> 0 \<le> h \<Longrightarrow> split_on (CHR ''x'') (size_name w h) = [py_str w, py_str h]"
  using split_on_first[of "CHR ''x''" "py_str w" "py_str h"] split_on_none[of "CHR ''x''" "py_str h"]
    isdigit_no_x[OF isdigit_py_str]
  by (simp add: size_name_def)

lemma alnum_key_size_name:
  "0 \<le> w \<Longrightarrow> 0 \<le> h \<Longrightarrow> alnum_key (size_name w h) = [Num w, Num h]"
  by (simp add: alnum_key_def split_size_name isdigit_py_str py_int_py_str)

lemma size_name_inj:
  assumes "0 \<le> w" "0 \<le> h" "0 \<le> w'" "0 \<le> h'"
    and "size_name w h = size_name w' h'"
  shows "w = w' \<and> h = h'"
proof -
  have "alnum_key (size_name w h) = alnum_key (size_name w' h')"
    by (simp only: assms(5))
  then show ?thesis using assms(1-4) by (simp add: alnum_key_size_name)
qed

subsection \<open>Host operations on the collection map\<close>

lemma col_None_iff: "col d n = None \<longleftrightarrow> n \<notin> fst ` set (collections d)"
  by (simp add: col_def map_of_eq_None_iff)

lemma collections_new_fresh:
  assumes "col d n = None"
  shows "collections_new n d = (n, d\<lparr>collections := collections d @ [(n, empty_collection)]\<rparr>)"
proof -
  have "n \<notin> set (map fst (collections d))" using assms by (simp add: col_None_iff)
  then show ?thesis
    by (simp add: collections_new_def unique_name_free empty_collection_def)
qed

lemma col_snoc:
  "col d n = None \<Longrightarrow> col (d\<lparr>collections := collections d @ [(n, c)]\<rparr>) = (col d)(n \<mapsto> c)"
  by (rule ext) (simp add: col_def map_of_snoc del: map_of_append split: option.splits)

lemma col_update_collection:
  "col (update_collection (Collection p) f d) = (col d)(p := map_option f (col d p))"
  by (rule ext) (simp add: col_def update_collection_def map_of_map_entry split: option.splits)

lemma frame_update_collection [simp]:
  "objects (update_collection r f d) = objects d"
  "meshes (update_collection r f d) = meshes d"
  "scene_collection (update_collection (Collection p) f d) = scene_collection d"
  "collections (update_collection SceneCollection f d) = collections d"
  "scene_collection (update_collection SceneCollection f d) = f (scene_collection d)"
  by (simp_all add: update_collection_def split: coll_ref.splits)

lemma get_or_create_scene:
  assumes "col d n = None" and "n \<notin> set (col_children (scene_collection d))"
  shows "\<exists>d'. get_or_create SceneCollection n d = Inr (n, d')
            \<and> col d' = (col d)(n \<mapsto> empty_collection)
            \<and> scene_collection d'
                = (scene_collection d)\<lparr>col_children := col_children (scene_collection d) @ [n]\<rparr>
            \<and> objects d' = objects d \<and> meshes d' = meshes d"
proof -
  define d1 where "d1 = d\<lparr>collections := collections d @ [(n, empty_collection)]\<rparr>"
  have "children_link SceneCollection n d1
        = Inr (update_collection SceneCollection (\<lambda>c. c\<lparr>col_children := col_children c @ [n]\<rparr>) d1)"
    using assms(2) by (simp add: children_link_def get_collection_def d1_def)
  moreover have "map_of (collections d) n = None" using assms(1) by (simp add: col_def)
  ultimately have "get_or_create SceneCollection n d
        = Inr (n, update_collection SceneCollection (\<lambda>c. c\<lparr>col_children := col_children c @ [n]\<rparr>) d1)"
    by (simp add: get_or_create_def collections_new_fresh[OF assms(1)] d1_def)
  moreover have "col (update_collection SceneCollection (\<lambda>c. c\<lparr>col_children := col_children c @ [n]\<rparr>) d1)
      = (col d)(n \<mapsto> empty_collection)"
    using col_snoc[OF assms(1), of empty_collection] by (simp add: col_def d1_def)
  ultimately show ?thesis by (simp add: d1_def)
qed

lemma get_or_create_in:
  assumes "col d n = None" and "col d p = Some c" and "n \<notin> set (col_children c)"
  shows "\<exists>d'. get_or_create (Collection p) n d = Inr (n, d')
            \<and> col d' = (col d)(n \<mapsto> empty_collection,
                               p \<mapsto> c\<lparr>col_children := col_children c @ [n]\<rparr>)
            \<and> scene_collection d' = scene_collection d
            \<and> objects d' = objects d \<and> meshes d' = meshes d"
proof -
  define d1 where "d1 = d\<lparr>collections := collections d @ [(n, empty_collection)]\<rparr>"
  have np: "n \<noteq> p" using assms(1,2) by auto
  have c1: "col d1 = (col d)(n \<mapsto> empty_collection)"
    unfolding d1_def by (rule col_snoc[OF assms(1)])
  then have p1: "col d1 p = Some c" using np assms(2) by simp
  then have "children_link (Collection p) n d1
        = Inr (update_collection (Collection p) (\<lambda>c. c\<lparr>col_children := col_children c @ [n]\<rparr>) d1)"
    using assms(3) by (simp add: children_link_def get_collection_def col_def)
  moreover have "map_of (collections d) n = None" using assms(1) by (simp add: col_def)
  ultimately have "get_or_create (Collection p) n d
        = Inr (n, update_collection (Collection p) (\<lambda>c. c\<lparr>col_children := col_children c @ [n]\<rparr>) d1)"
    by (simp add: get_or_create_def collections_new_fresh[OF assms(1)] d1_def)
  moreover have "col (update_collection (Collection p) (\<lambda>c. c\<lparr>col_children := col_children c @ [n]\<rparr>) d1)
      = (col d)(n \<mapsto> empty_collection, p \<mapsto> c\<lparr>col_children := col_children c @ [n]\<rparr>)"
    using np assms(2) by (simp add: col_update_collection c1)
  ultimately show ?thesis by (simp add: d1_def)
qed

subsection \<open>The hierarchy builder\<close>

lemma build_heights_effect:
  assumes "0 \<le> w" and "\<forall>h \<in> set hs. 0 \<le> h" and "distinct hs"
    and "col d (py_str w) = Some c"
    and "\<forall>h \<in> set hs. col d (size_name w h) = None"
    and "\<forall>h \<in> set hs. size_name w h \<notin> set (col_children c)"
  shows "\<exists>d' hm'. for_each (build_height w (py_str w)) hs (d, hm) = Inr (d', hm')
           \<and> col d' = (\<lambda>n. if n = py_str w
                           then Some (c\<lparr>col_children := col_children c @ map (size_name w) hs\<rparr>)
                           else if n \<in> size_name w ` set hs then Some empty_collection
                           else col d n)
           \<and> hm' = (\<lambda>p. if fst p = w \<and> snd p \<in> set hs
                         then Some (size_name w (snd p)) else hm p)
           \<and> scene_collection d' = scene_collection d
           \<and> objects d' = objects d \<and> meshes d' = meshes d"
  using assms(2-)
proof (induction hs arbitrary: d hm c)
  case Nil
  then show ?case by (auto simp: fun_eq_iff)
next
  case (Cons h hs)
  let ?s = "size_name w h"
  have w: "0 \<le> w" by fact
  have h: "0 \<le> h" and hs: "\<forall>h \<in> set hs. 0 \<le> h" using Cons.prems(1) by simp_all
  have hnew: "h \<notin> set hs" and dist: "distinct hs" using Cons.prems(2) by simp_all
  have ne_w: "size_name w h' \<noteq> py_str w" for h'
    by (rule size_name_neq_py_str[OF w])
  have ne_h: "size_name w h' \<noteq> ?s" if "h' \<in> set hs" for h'
    using size_name_inj[OF w _ w h, of h'] that hs hnew by auto
  from get_or_create_in[of d ?s "py_str w" c] Cons.prems(3,4,5)
  obtain d1 where g: "get_or_create (Collection (py_str w)) ?s d = Inr (?s, d1)"
    and c1: "col d1 = (col d)(?s \<mapsto> empty_collection,
                             py_str w \<mapsto> c\<lparr>col_children := col_children c @ [?s]\<rparr>)"
    and f1: "scene_collection d1 = scene_collection d" "objects d1 = objects d" "meshes d1 = meshes d"
    by auto
  define c' where "c' = c\<lparr>col_children := col_children c @ [?s]\<rparr>"
  define hm1 where "hm1 = hm((w, h) \<mapsto> ?s)"
  have step: "build_height w (py_str w) h (d, hm) = Inr (d1, hm1)"
    by (simp add: build_height_def g hm1_def)
  have p1: "col d1 (py_str w) = Some c'" by (simp add: c1 c'_def)
  have p2: "\<forall>h' \<in> set hs. col d1 (size_name w h') = None"
    using Cons.prems(4) ne_w ne_h by (simp add: c1)
  have p3: "\<forall>h' \<in> set hs. size_name w h' \<notin> set (col_children c')"
    using Cons.prems(5) ne_h by (simp add: c'_def)
  from Cons.IH[OF hs dist p1 p2 p3, of hm1]
  obtain d' hm' where r: "for_each (build_height w (py_str w)) hs (d1, hm1) = Inr (d', hm')"
    and cd': "col d' = (\<lambda>n. if n = py_str w
                           then Some (c'\<lparr>col_children := col_children c' @ map (size_name w) hs\<rparr>)
                           else if n \<in> size_name w ` set hs then Some empty_collection
                           else col d1 n)"
    and hm': "hm' = (\<lambda>p. if fst p = w \<and> snd p \<in> set hs
                         then Some (size_name w (snd p)) else hm1 p)"
    and f': "scene_collection d' = scene_collection d1" "objects d' = objects d1" "meshes d' = meshes d1"
    by blast
  have run: "for_each (build_height w (py_str w)) (h # hs) (d, hm) = Inr (d', hm')"
    by (simp add: step r)
  have col': "col d' = (\<lambda>n. if n = py_str w
                           then Some (c\<lparr>col_children := col_children c @ map (size_name w) (h # hs)\<rparr>)
                           else if n \<in> size_name w ` set (h # hs) then Some empty_collection
                           else col d n)"
    unfolding cd' by (rule ext) (auto simp: c1 c'_def)
  have hmf: "hm' = (\<lambda>p. if fst p = w \<and> snd p \<in> set (h # hs)
                         then Some (size_name w (snd p)) else hm p)"
    unfolding hm' hm1_def by (rule ext) auto
  from run col' hmf f' f1 show ?case by simp
qed

lemma build_hierarchy_effect:
  assumes "\<forall>h \<in> set sizes. 0 \<le> h" and "distinct sizes"
    and "\<forall>w \<in> set ws. 0 \<le> w" and "distinct ws"
    and "\<forall>w \<in> set ws. col d (py_str w) = None"
    and "\<forall>w \<in> set ws. py_str w \<notin> set (col_children (scene_collection d))"
    and "\<forall>n \<in> size_names ws sizes. col d n = None"
  shows "\<exists>d' hm'. for_each (build_width sizes) ws (d, hm) = Inr (d', hm')
           \<and> col d' = (\<lambda>n. if n \<in> py_str ` set ws
                           then Some (width_collection_of sizes (py_int n))
                           else if n \<in> size_names ws sizes then Some empty_collection
                           else col d n)
           \<and> hm' = (\<lambda>p. if fst p \<in> set ws \<and> snd p \<in> set sizes
                         then Some (size_name (fst p) (snd p)) else hm p)
           \<and> scene_collection d'
               = (scene_collection d)\<lparr>col_children := col_children (scene_collection d) @ map py_str ws\<rparr>
           \<and> objects d' = objects d \<and> meshes d' = meshes d"
  using assms(3-)
proof (induction ws arbitrary: d hm)
  case Nil
  then show ?case by (auto simp: fun_eq_iff size_names_def)
next
  case (Cons w ws)
  have sz: "\<forall>h \<in> set sizes. 0 \<le> h" "distinct sizes" by fact+
  have w: "0 \<le> w" and ws: "\<forall>w \<in> set ws. 0 \<le> w" using Cons.prems(1) by simp_all
  have wnew: "w \<notin> set ws" and dist: "distinct ws" using Cons.prems(2) by simp_all
  have split: "size_names (w # ws) sizes
               = size_name w ` set sizes \<union> size_names ws sizes"
    unfolding size_names_def by auto
  have ne_str: "py_str w' \<noteq> py_str w" if "w' \<in> set ws" for w'
    using py_str_inj[OF _ w, of w'] that ws wnew by auto
  have sub_ne_str: "n \<noteq> py_str w'" if "n \<in> size_names (w # ws) sizes" "0 \<le> w'" for n w'
  proof -
    from that(1) obtain a b where "n = size_name a b"
      unfolding size_names_def by blast
    then show ?thesis using size_name_neq_py_str[OF that(2)] by simp
  qed
  have disj: "n \<notin> size_name w ` set sizes" if "n \<in> size_names ws sizes" for n
  proof
    assume "n \<in> size_name w ` set sizes"
    then obtain h where h: "h \<in> set sizes" "n = size_name w h" by blast
    from that obtain w' h' where h': "w' \<in> set ws" "h' \<in> set sizes" "n = size_name w' h'"
      unfolding size_names_def by blast
    have "w' = w"
      using size_name_inj[of w' h' w h] h h' ws w sz(1) by auto
    with h'(1) wnew show False by simp
  qed
  from get_or_create_scene[of d "py_str w"] Cons.prems(3,4)
  obtain d1 where g: "get_or_create SceneCollection (py_str w) d = Inr (py_str w, d1)"
    and c1: "col d1 = (col d)(py_str w \<mapsto> empty_collection)"
    and s1: "scene_collection d1
             = (scene_collection d)\<lparr>col_children := col_children (scene_collection d) @ [py_str w]\<rparr>"
    and f1: "objects d1 = objects d" "meshes d1 = meshes d"
    by auto
  have i1: "col d1 (py_str w) = Some empty_collection" by (simp add: c1)
  have i2: "\<forall>h \<in> set sizes. col d1 (size_name w h) = None"
    using Cons.prems(5) size_name_neq_py_str[OF w] by (auto simp: c1 split)
  have i3: "\<forall>h \<in> set sizes. size_name w h \<notin> set (col_children empty_collection)"
    by (simp add: empty_collection_def)
  from build_heights_effect[OF w sz i1 i2 i3, of hm]
  obtain d2 hm2 where r2: "for_each (build_height w (py_str w)) sizes (d1, hm) = Inr (d2, hm2)"
    and c2: "col d2 = (\<lambda>n. if n = py_str w
                           then Some (empty_collection\<lparr>col_children := col_children empty_collection
                                                        @ map (size_name w) sizes\<rparr>)
                           else if n \<in> size_name w ` set sizes then Some empty_collection
                           else col d1 n)"
    and hm2: "hm2 = (\<lambda>p. if fst p = w \<and> snd p \<in> set sizes
                         then Some (size_name w (snd p)) else hm p)"
    and f2: "scene_collection d2 = scene_collection d1" "objects d2 = objects d1" "meshes d2 = meshes d1"
    by blast
  have step: "build_width sizes w (d, hm) = Inr (d2, hm2)"
    by (simp add: build_width_def g r2)
  have wc: "empty_collection\<lparr>col_children := col_children empty_collection
                                                        @ map (size_name w) sizes\<rparr>
            = width_collection_of sizes w"
    by (simp add: empty_collection_def width_collection_of_def)
  have j1: "\<forall>w' \<in> set ws. col d2 (py_str w') = None"
  proof
    fix w' assume w': "w' \<in> set ws"
    then have "py_str w' \<notin> size_name w ` set sizes"
      using size_name_neq_py_str ws by (metis imageE)
    then show "col d2 (py_str w') = None"
      using ne_str[OF w'] Cons.prems(3) w' by (simp add: c2 c1)
  qed
  have j2: "\<forall>w' \<in> set ws. py_str w' \<notin> set (col_children (scene_collection d2))"
    using Cons.prems(4) ne_str by (simp add: f2 s1)
  have j3: "\<forall>n \<in> size_names ws sizes. col d2 n = None"
  proof
    fix n assume n: "n \<in> size_names ws sizes"
    then have "n \<in> size_names (w # ws) sizes" by (simp add: split)
    then have "n \<noteq> py_str w" "col d n = None"
      using sub_ne_str[OF _ w] Cons.prems(5) by blast+
    then show "col d2 n = None" using disj[OF n] by (simp add: c2 c1)
  qed
  from Cons.IH[OF ws dist j1 j2 j3, of hm2]
  obtain d' hm' where r: "for_each (build_width sizes) ws (d2, hm2) = Inr (d', hm')"
    and cd': "col d' = (\<lambda>n. if n \<in> py_str ` set ws
                           then Some (width_collection_of sizes (py_int n))
                           else if n \<in> size_names ws sizes then Some empty_collection
                           else col d2 n)"
    and hm': "hm' = (\<lambda>p. if fst p \<in> set ws \<and> snd p \<in> set sizes
                         then Some (size_name (fst p) (snd p)) else hm2 p)"
    and s': "scene_collection d'
               = (scene_collection d2)\<lparr>col_children := col_children (scene_collection d2) @ map py_str ws\<rparr>"
    and f': "objects d' = objects d2" "meshes d' = meshes d2"
    by blast
  have run: "for_each (build_width sizes) (w # ws) (d, hm) = Inr (d', hm')"
    by (simp add: step r)
  have col': "col d' = (\<lambda>n. if n \<in> py_str ` set (w # ws)
                           then Some (width_collection_of sizes (py_int n))
                           else if n \<in> size_names (w # ws) sizes then Some empty_collection
                           else col d n)"
  proof (rule ext)
    fix n
    consider (a) "n \<in> py_str ` set ws" | (b) "n = py_str w" "n \<notin> py_str ` set ws"
      | (c) "n \<noteq> py_str w" "n \<notin> py_str ` set ws" "n \<in> size_names ws sizes"
      | (d) "n \<noteq> py_str w" "n \<notin> py_str ` set ws" "n \<notin> size_names ws sizes"
            "n \<in> size_name w ` set sizes"
      | (e) "n \<noteq> py_str w" "n \<notin> py_str ` set ws" "n \<notin> size_names ws sizes"
            "n \<notin> size_name w ` set sizes"
      by blast
    then show "col d' n = (if n \<in> py_str ` set (w # ws)
                           then Some (width_collection_of sizes (py_int n))
                           else if n \<in> size_names (w # ws) sizes then Some empty_collection
                           else col d n)"
    proof cases
      case a
      then show ?thesis by (simp add: cd')
    next
      case b
      then have "n \<notin> size_names ws sizes"
        using sub_ne_str[OF _ w, of n] by (auto simp: split)
      then show ?thesis using b w by (simp add: cd' c2 wc py_int_py_str)
    next
      case c
      then show ?thesis by (simp add: cd' split)
    next
      case d
      then show ?thesis by (simp add: cd' c2 split)
    next
      case e
      then show ?thesis by (simp add: cd' c2 c1 split)
    qed
  qed
  have hmf: "hm' = (\<lambda>p. if fst p \<in> set (w # ws) \<and> snd p \<in> set sizes
                         then Some (size_name (fst p) (snd p)) else hm p)"
    unfolding hm' hm2 by (rule ext) auto
  have sf: "scene_collection d'
               = (scene_collection d)\<lparr>col_children := col_children (scene_collection d) @ map py_str (w # ws)\<rparr>"
    by (simp add: s' f2 s1)
  from run col' hmf sf f' f2 f1 show ?case by simp
qed

subsection \<open>One step of the creation loop\<close>

lemma py_round_metres [simp]: "py_round (metres s * 100) = s"
  by (simp add: metres_def)

lemma col_frame [simp]:
  "col (d\<lparr>objects := os\<rparr>) = col d" "col (d\<lparr>meshes := ms\<rparr>) = col d"
  by (simp_all add: col_def)

lemma objects_link_ok:
  assumes "col d s = Some c" and "ob \<notin> set (col_objects c)"
  shows "objects_link (Collection s) ob d
         = Inr (update_collection (Collection s) (\<lambda>c. c\<lparr>col_objects := col_objects c @ [ob]\<rparr>) d)"
  using assms by (simp add: objects_link_def get_collection_def col_def)

lemma try_unlink_absent:
  "ob \<notin> set (col_objects (scene_collection d)) \<Longrightarrow> try_unlink_from_scene ob d = d"
  by (simp add: try_unlink_from_scene_def objects_unlink_def get_collection_def)

lemma create_pair_effect:
  assumes hm: "hm (w, h) = Some (size_name w h)"
    and c: "col d (size_name w h) = Some c"
    and lc: "set (col_objects c) \<subseteq> fst ` set (objects d)"
    and ls: "set (col_objects (scene_collection d)) \<subseteq> fst ` set (objects d)"
  shows "\<exists>d' ob ucx m1 m2 bm.
           create_pair hm (metres w, metres h) d = Inr d'
           \<and> ob = unique_name (map fst (objects d)) (size_name w h)
           \<and> ucx = unique_name (map fst (objects d) @ [ob]) (''UCX_'' @ size_name w h)
           \<and> m1 = unique_name (map fst (meshes d)) (size_name w h)
           \<and> m2 = unique_name (map fst (meshes d) @ [m1]) (''UCX_'' @ size_name w h)
           \<and> plane_bmesh (metres w) (metres h) = Inr bm
           \<and> objects d' = objects d @ [(ob, mesh_object m1), (ucx, mesh_object m2)]
           \<and> meshes d' = meshes d @ [(m1, bm), (m2, quad_mesh (metres w) (metres h))]
           \<and> col d' = (col d)(size_name w h
                               \<mapsto> c\<lparr>col_objects := col_objects c @ [ob, ucx]\<rparr>)
           \<and> scene_collection d' = scene_collection d"
proof -
  let ?s = "size_name w h"
  from plane_bmesh_total[of "metres w" "metres h"]
  obtain bm where bm: "plane_bmesh (metres w) (metres h) = Inr bm" by blast
  define ob where "ob = unique_name (map fst (objects d)) ?s"
  define ucx where "ucx = unique_name (map fst (objects d) @ [ob]) (''UCX_'' @ ?s)"
  define m1 where "m1 = unique_name (map fst (meshes d)) ?s"
  define m2 where "m2 = unique_name (map fst (meshes d) @ [m1]) (''UCX_'' @ ?s)"
  define d2 where "d2 = d\<lparr>meshes := meshes d @ [(m1, bm), (m2, quad_mesh (metres w) (metres h))],
                          objects := objects d @ [(ob, mesh_object m1), (ucx, mesh_object m2)]\<rparr>"
  have ob_fresh: "ob \<notin> fst ` set (objects d)"
    using unique_name_fresh[of "map fst (objects d)" ?s] by (simp add: ob_def)
  have ucx_fresh: "ucx \<notin> fst ` set (objects d)" "ucx \<noteq> ob"
    using unique_name_fresh[of "map fst (objects d) @ [ob]" "''UCX_'' @ ?s"]
    by (simp_all add: ucx_def)
  have plane: "create_subdivided_plane_bmesh (metres w) (metres h) ?s d
        = Inr (ob, d\<lparr>meshes := meshes d @ [(m1, bm)],
                     objects := objects d @ [(ob, mesh_object m1)]\<rparr>)"
    by (simp add: create_subdivided_plane_bmesh_def bm meshes_new_def objects_new_def Let_def
        ob_def m1_def mesh_object_def)
  have simple: "create_simple_plane (metres w) (metres h) (''UCX_'' @ ?s)
          (d\<lparr>meshes := meshes d @ [(m1, bm)], objects := objects d @ [(ob, mesh_object m1)]\<rparr>)
        = (ucx, d2)"
    by (simp add: create_simple_plane_def meshes_new_def objects_new_def Let_def
        ucx_def m2_def mesh_object_def d2_def quad_mesh_def)
  have c2: "col d2 ?s = Some c" using c by (simp add: d2_def)
  have "ob \<notin> set (col_objects c)" using ob_fresh lc by blast
  from objects_link_ok[OF c2 this]
  have l1: "objects_link (Collection ?s) ob d2
         = Inr (update_collection (Collection ?s) (\<lambda>c. c\<lparr>col_objects := col_objects c @ [ob]\<rparr>) d2)" .
  define d3 where "d3 = update_collection (Collection ?s) (\<lambda>c. c\<lparr>col_objects := col_objects c @ [ob]\<rparr>) d2"
  have c3: "col d3 ?s = Some (c\<lparr>col_objects := col_objects c @ [ob]\<rparr>)"
    by (simp add: d3_def col_update_collection c2)
  have "ucx \<notin> set (col_objects (c\<lparr>col_objects := col_objects c @ [ob]\<rparr>))"
    using ucx_fresh lc by auto
  from objects_link_ok[OF c3 this]
  have l2: "objects_link (Collection ?s) ucx d3
         = Inr (update_collection (Collection ?s) (\<lambda>c. c\<lparr>col_objects := col_objects c @ [ucx]\<rparr>) d3)" .
  define d4 where "d4 = update_collection (Collection ?s) (\<lambda>c. c\<lparr>col_objects := col_objects c @ [ucx]\<rparr>) d3"
  have s4: "scene_collection d4 = scene_collection d"
    by (simp add: d4_def d3_def d2_def)
  have "ob \<notin> set (col_objects (scene_collection d4))" "ucx \<notin> set (col_objects (scene_collection d4))"
    using ob_fresh ucx_fresh ls by (auto simp: s4)
  then have un: "fold try_unlink_from_scene [ob, ucx] d4 = d4"
    by (simp add: try_unlink_absent)
  have run: "create_pair hm (metres w, metres h) d = Inr d4"
    by (simp only: create_pair_def Let_def prod.case py_round_metres plane py_bind_Inr simple
        py_lookup_def hm option.case l1 d3_def[symmetric] l2 d4_def[symmetric] un)
  have c4: "col d4 = (col d)(?s \<mapsto> c\<lparr>col_objects := col_objects c @ [ob, ucx]\<rparr>)"
    using c by (simp add: d4_def d3_def col_update_collection d2_def)
  have o4: "objects d4 = objects d @ [(ob, mesh_object m1), (ucx, mesh_object m2)]"
    "meshes d4 = meshes d @ [(m1, bm), (m2, quad_mesh (metres w) (metres h))]"
    by (simp_all add: d4_def d3_def d2_def)
  have "create_pair hm (metres w, metres h) d = Inr d4
           \<and> ob = unique_name (map fst (objects d)) (size_name w h)
           \<and> ucx = unique_name (map fst (objects d) @ [ob]) (''UCX_'' @ size_name w h)
           \<and> m1 = unique_name (map fst (meshes d)) (size_name w h)
           \<and> m2 = unique_name (map fst (meshes d) @ [m1]) (''UCX_'' @ size_name w h)
           \<and> plane_bmesh (metres w) (metres h) = Inr bm
           \<and> objects d4 = objects d @ [(ob, mesh_object m1), (ucx, mesh_object m2)]
           \<and> meshes d4 = meshes d @ [(m1, bm), (m2, quad_mesh (metres w) (metres h))]
           \<and> col d4 = (col d)(size_name w h
                               \<mapsto> c\<lparr>col_objects := col_objects c @ [ob, ucx]\<rparr>)
           \<and> scene_collection d4 = scene_collection d"
    by (intro conjI run bm c4 o4 s4 ob_def ucx_def m1_def m2_def)
  then show ?thesis by (intro exI)
qed

subsection \<open>Names of generated objects\<close>

lemma find_Some_in_set: "find P xs = Some x \<Longrightarrow> x \<in> set xs"
  by (induction xs) (auto split: if_splits)

lemma unique_name_prefix: "\<exists>s. unique_name taken n = n @ s"
proof (cases "find (\<lambda>c. c \<notin> set taken) (map (\<lambda>k. n @ ''.'' @ pad3 k) [1..<length taken + 2])")
  case None
  then show ?thesis by (simp add: unique_name_def)
next
  case (Some c)
  then have "c \<in> set (map (\<lambda>k. n @ ''.'' @ pad3 k) [1..<length taken + 2])"
    by (rule find_Some_in_set)
  then obtain k where "c = n @ ''.'' @ pad3 k" by auto
  then show ?thesis using Some by (simp add: unique_name_def)
qed

lemma digits_x: "set ''0123456789x'' = set ''0123456789'' \<union> {CHR ''x''}"
proof -
  have "''0123456789x'' = ''0123456789'' @ ''x''" by simp
  then show ?thesis by (simp only: set_append) simp
qed

lemma size_name_chars:
  assumes "0 \<le> w" "0 \<le> h"
  shows "set (size_name w h) \<subseteq> set ''0123456789x''"
proof -
  have "set (py_str w) \<subseteq> set ''0123456789''" "set (py_str h) \<subseteq> set ''0123456789''"
    unfolding py_str_nonneg[OF assms(1)] py_str_nonneg[OF assms(2)] by (rule str_nat_digits)+
  moreover have "set (size_name w h) = set (py_str w) \<union> {CHR ''x''} \<union> set (py_str h)"
    by (simp add: size_name_def)
  ultimately show ?thesis unfolding digits_x by blast
qed

lemma size_name_no_underscore: "0 \<le> w \<Longrightarrow> 0 \<le> h \<Longrightarrow> CHR ''_'' \<notin> set (size_name w h)"
proof -
  have "CHR ''_'' \<notin> set ''0123456789x''" by simp
  then show "0 \<le> w \<Longrightarrow> 0 \<le> h \<Longrightarrow> CHR ''_'' \<notin> set (size_name w h)"
    using size_name_chars[of w h] by blast
qed

lemma size_name_neq_ucx:
  "0 \<le> w \<Longrightarrow> 0 \<le> h \<Longrightarrow> size_name w h \<noteq> ''UCX_'' @ s"
proof
  assume "0 \<le> w" "0 \<le> h" and e: "size_name w h = ''UCX_'' @ s"
  have "CHR ''_'' \<in> set (''UCX_'' @ s)" by simp
  then have "CHR ''_'' \<in> set (size_name w h)" by (simp only: e)
  then show False using size_name_no_underscore[OF \<open>0 \<le> w\<close> \<open>0 \<le> h\<close>] by simp
qed

lemma size_name_nonempty: "size_name w h \<noteq> []"
  by (simp add: size_name_def)

lemma hd_size_name_digit:
  assumes "0 \<le> w"
  shows "hd (size_name w h) \<in> set ''0123456789''"
proof -
  have "py_str w \<noteq> []" "set (py_str w) \<subseteq> set ''0123456789''"
    unfolding py_str_nonneg[OF assms] by (simp, rule str_nat_digits)
  then have "hd (py_str w) \<in> set ''0123456789''"
    using hd_in_set by blast
  moreover have "hd (size_name w h) = hd (py_str w)"
    using \<open>py_str w \<noteq> []\<close> by (simp add: size_name_def)
  ultimately show ?thesis by simp
qed

text \<open>A name that starts with a digit sorts before one that starts with \<open>U\<close>.\<close>

lemma digit_before_U: "c \<in> set ''0123456789'' \<Longrightarrow> (of_char c :: nat) < of_char (CHR ''U'')"
  by simp (elim disjE; simp)

lemma str_less_digit_U:
  assumes "a \<noteq> []" "hd a \<in> set ''0123456789''"
  shows "str_less a (CHR ''U'' # b)" and "\<not> str_less (CHR ''U'' # b) a"
proof -
  from assms obtain c cs where a: "a = c # cs" "c \<in> set ''0123456789''"
    by (cases a) auto
  then have lt: "(of_char c :: nat) < of_char (CHR ''U'')" by (intro digit_before_U)
  then have ne: "c \<noteq> CHR ''U''" by auto
  show "str_less a (CHR ''U'' # b)" using lt ne by (simp add: a(1))
  show "\<not> str_less (CHR ''U'' # b) a" using lt ne by (simp add: a(1))
qed

subsection \<open>Appending fresh entries to a store\<close>

lemma map_of_append_old:
  "k \<in> fst ` set xs \<Longrightarrow> map_of (xs @ ys) k = map_of xs k"
  by (auto simp: map_add_def map_of_eq_None_iff split: option.splits)

lemma map_of_append_new:
  "k \<notin> fst ` set xs \<Longrightarrow> map_of (xs @ ys) k = map_of ys k"
proof -
  assume "k \<notin> fst ` set xs"
  then have "map_of xs k = None" by (simp add: map_of_eq_None_iff)
  then show ?thesis by (simp add: map_add_def)
qed

lemma createdD:
  assumes "created d ps d' N"
  shows "\<forall>p \<in> set ps. col d' (pair_name p)
                     = Some \<lparr>col_children = [], col_objects = [fst (N p), snd (N p)]\<rparr>"
    and "\<forall>n. n \<notin> pair_name ` set ps \<longrightarrow> col d' n = col d n"
    and "scene_collection d' = scene_collection d"
    and "objects d' = objects d @ new_objects d d'"
    and "map fst (new_objects d d') = concat (map (\<lambda>p. [fst (N p), snd (N p)]) ps)"
    and "\<forall>x \<in> set (new_objects d d'). obj_type (snd x) = ''MESH''"
    and "distinct (map fst (new_objects d d'))"
    and "fst ` set (new_objects d d') \<inter> fst ` set (objects d) = {}"
    and "take (length (meshes d)) (meshes d') = meshes d"
    and "\<forall>p \<in> set ps. (\<exists>s. fst (N p) = pair_name p @ s)
                      \<and> (\<exists>s. snd (N p) = ''UCX_'' @ pair_name p @ s)
                      \<and> object_mesh d' (fst (N p)) = Some (expected_mesh p)
                      \<and> object_mesh d' (snd (N p)) = Some (expected_quad p)"
    and "(\<forall>p \<in> set ps. pair_name p \<notin> fst ` set (objects d)
                       \<and> ''UCX_'' @ pair_name p \<notin> fst ` set (objects d))
          \<longrightarrow> (\<forall>p \<in> set ps. N p = (pair_name p, ''UCX_'' @ pair_name p))"
    and "links_ok d'"
  using assms unfolding created_def by - ((elim conjE, assumption)+)

lemma pair_name_inj:
  "0 \<le> fst p \<Longrightarrow> 0 \<le> snd p \<Longrightarrow> 0 \<le> fst q \<Longrightarrow> 0 \<le> snd q \<Longrightarrow> pair_name p = pair_name q
   \<Longrightarrow> p = q"
  using size_name_inj[of "fst p" "snd p" "fst q" "snd q"]
  by (simp add: pair_name_def prod_eq_iff)

subsection \<open>The creation loop\<close>

lemma created_Nil: "links_ok d \<Longrightarrow> created d [] d N"
  by (simp add: created_def new_objects_def)

lemma create_all_effect:
  assumes "\<forall>p \<in> set ps. 0 \<le> fst p \<and> 0 \<le> snd p" and "distinct ps"
    and "\<forall>p \<in> set ps. hm p = Some (pair_name p)"
    and "\<forall>p \<in> set ps. col d (pair_name p) = Some empty_collection"
    and "links_ok d"
  shows "\<exists>d' N. create_all hm (map pair_metres ps) d = Inr d' \<and> created d ps d' N"
  using assms
proof (induction ps arbitrary: d)
  case Nil
  then show ?case by (auto simp: create_all_def created_Nil)
next
  case (Cons p ps)
  obtain w h where p: "p = (w, h)" by (cases p)
  let ?s = "size_name w h"
  let ?K = "fst ` set (objects d)"
  have nn: "0 \<le> w" "0 \<le> h" and nns: "\<forall>q \<in> set ps. 0 \<le> fst q \<and> 0 \<le> snd q"
    using Cons.prems(1) by (simp_all add: p)
  have pnew: "p \<notin> set ps" and dist: "distinct ps" using Cons.prems(2) by simp_all
  have hms: "\<forall>q \<in> set ps. hm q = Some (pair_name q)" and hmp: "hm (w, h) = Some ?s"
    using Cons.prems(3) by (simp_all add: p pair_name_def)
  have cp: "col d ?s = Some empty_collection"
    using Cons.prems(4) by (simp add: p pair_name_def)
  have lk: "set (col_objects (scene_collection d)) \<subseteq> ?K"
    "\<And>n c. col d n = Some c \<Longrightarrow> set (col_objects c) \<subseteq> ?K"
    using Cons.prems(5) unfolding links_ok_def by blast+
  have name_p: "pair_name p = ?s" by (simp add: p pair_name_def)
  have ne: "pair_name q \<noteq> ?s" if "q \<in> set ps" for q
    using pair_name_inj[of q p] that nns nn pnew by (auto simp: p pair_name_def)
  from create_pair_effect[of hm w h d empty_collection, OF hmp cp lk(2)[OF cp] lk(1)]
  obtain d1 ob ucx m1 m2 bm where
    step: "create_pair hm (metres w, metres h) d = Inr d1"
    and ob: "ob = unique_name (map fst (objects d)) ?s"
    and ucx: "ucx = unique_name (map fst (objects d) @ [ob]) (''UCX_'' @ ?s)"
    and m1: "m1 = unique_name (map fst (meshes d)) ?s"
    and m2: "m2 = unique_name (map fst (meshes d) @ [m1]) (''UCX_'' @ ?s)"
    and bm: "plane_bmesh (metres w) (metres h) = Inr bm"
    and o1: "objects d1 = objects d @ [(ob, mesh_object m1), (ucx, mesh_object m2)]"
    and ms1: "meshes d1 = meshes d @ [(m1, bm), (m2, quad_mesh (metres w) (metres h))]"
    and c1: "col d1 = (col d)(?s \<mapsto> empty_collection\<lparr>col_objects := col_objects empty_collection @ [ob, ucx]\<rparr>)"
    and s1: "scene_collection d1 = scene_collection d"
    by blast
  have ob_fresh: "ob \<notin> ?K"
    using unique_name_fresh[of "map fst (objects d)" ?s] by (simp add: ob)
  have ucx_fresh: "ucx \<notin> ?K" "ucx \<noteq> ob"
    using unique_name_fresh[of "map fst (objects d) @ [ob]" "''UCX_'' @ ?s"] by (simp_all add: ucx)
  have m1_fresh: "m1 \<notin> fst ` set (meshes d)"
    using unique_name_fresh[of "map fst (meshes d)" ?s] by (simp add: m1)
  have m2_fresh: "m2 \<notin> fst ` set (meshes d)" "m2 \<noteq> m1"
    using unique_name_fresh[of "map fst (meshes d) @ [m1]" "''UCX_'' @ ?s"] by (simp_all add: m2)
  have K1: "fst ` set (objects d1) = insert ob (insert ucx ?K)"
    by (auto simp: o1)
  have c1': "col d1 ?s = Some \<lparr>col_children = [], col_objects = [ob, ucx]\<rparr>"
    by (simp add: c1 empty_collection_def)
  have c1_other: "col d1 n = col d n" if "n \<noteq> ?s" for n
    using that by (simp add: c1)
  have pre4: "\<forall>q \<in> set ps. col d1 (pair_name q) = Some empty_collection"
    using Cons.prems(4) ne by (simp add: c1_other)
  have pre5: "links_ok d1"
    unfolding links_ok_def
  proof (intro conjI allI impI)
    show "set (col_objects (scene_collection d1)) \<subseteq> fst ` set (objects d1)"
      using lk(1) by (auto simp: s1 K1)
  next
    fix n c assume nc: "col d1 n = Some c"
    show "set (col_objects c) \<subseteq> fst ` set (objects d1)"
    proof (cases "n = ?s")
      case True
      then show ?thesis using nc c1' by (auto simp: K1)
    next
      case False
      then have "col d n = Some c" using nc by (simp add: c1_other)
      then show ?thesis using lk(2) by (auto simp: K1)
    qed
  qed
  from Cons.IH[OF nns dist hms pre4 pre5]
  obtain d' N' where run': "create_all hm (map pair_metres ps) d1 = Inr d'"
    and cr: "created d1 ps d' N'"
    by blast
  define news where "news = new_objects d1 d'"
  note a = createdD[OF cr, folded news_def]
  note a1 = a(1) and a2 = a(2) and a3 = a(3) and a4 = a(4) and a5 = a(5) and a6 = a(6)
    and a7 = a(7) and a8 = a(8) and a9 = a(9) and a10 = a(10) and a11 = a(11) and a12 = a(12)
  define N where "N = N'(p := (ob, ucx))"
  have Np: "N p = (ob, ucx)" by (simp add: N_def)
  have Nq: "N q = N' q" if "q \<in> set ps" for q
    using that pnew by (auto simp: N_def)
  have run: "create_all hm (map pair_metres (p # ps)) d = Inr d'"
    using run' by (simp add: create_all_def pair_metres_def p step)
  have sp_notin: "?s \<notin> pair_name ` set ps"
  proof
    assume "?s \<in> pair_name ` set ps"
    then obtain q where "q \<in> set ps" "?s = pair_name q" by (rule imageE)
    then show False using ne[of q] by simp
  qed
  have b1: "\<forall>q \<in> set (p # ps). col d' (pair_name q)
                     = Some \<lparr>col_children = [], col_objects = [fst (N q), snd (N q)]\<rparr>"
  proof
    fix q assume "q \<in> set (p # ps)"
    then consider "q = p" | "q \<in> set ps" by auto
    then show "col d' (pair_name q) = Some \<lparr>col_children = [], col_objects = [fst (N q), snd (N q)]\<rparr>"
    proof cases
      case 1
      then show ?thesis using a2 sp_notin c1' by (simp add: name_p Np)
    next
      case 2
      then show ?thesis using a1 by (simp add: Nq)
    qed
  qed
  have b2: "\<forall>n. n \<notin> pair_name ` set (p # ps) \<longrightarrow> col d' n = col d n"
    using a2 c1_other by (simp add: name_p)
  have b3: "scene_collection d' = scene_collection d" by (simp add: a3 s1)
  define news0 where "news0 = [(ob, mesh_object m1), (ucx, mesh_object m2)] @ news"
  have b4: "objects d' = objects d @ news0" by (simp add: a4 o1 news0_def)
  have "map (\<lambda>q. [fst (N q), snd (N q)]) ps = map (\<lambda>q. [fst (N' q), snd (N' q)]) ps"
    by (rule map_cong) (simp_all add: Nq)
  then have "concat (map (\<lambda>q. [fst (N q), snd (N q)]) ps) = map fst news"
    by (simp only: a5)
  then have b5: "map fst news0 = concat (map (\<lambda>q. [fst (N q), snd (N q)]) (p # ps))"
    by (simp add: news0_def Np)
  have b6: "\<forall>x \<in> set news0. obj_type (snd x) = ''MESH''"
    using a6 by (auto simp: news0_def mesh_object_def)
  have inK1: "ob \<in> fst ` set (objects d1)" "ucx \<in> fst ` set (objects d1)"
    by (simp_all add: K1)
  have b7: "distinct (map fst news0)"
    using a7 a8 inK1 ucx_fresh(2) by (auto simp: news0_def)
  have b8: "fst ` set news0 \<inter> ?K = {}"
    using a8 ob_fresh ucx_fresh(1) by (auto simp: news0_def K1)
  obtain ms where ms: "meshes d' = meshes d1 @ ms"
    using a9 by (metis append_take_drop_id)
  have b9: "take (length (meshes d)) (meshes d') = meshes d" by (simp add: ms ms1)
  have em: "expected_mesh p = bm" by (simp add: expected_mesh_def p bm)
  have eq: "expected_quad p = quad_mesh (metres w) (metres h)" by (simp add: expected_quad_def p)
  have mk1: "m1 \<in> fst ` set (meshes d1)" "m2 \<in> fst ` set (meshes d1)" by (simp_all add: ms1)
  have mesh1: "map_of (meshes d') m1 = Some bm"
    using m1_fresh by (simp add: ms map_of_append_old[OF mk1(1)] ms1 map_of_append_new del: map_of_append)
  have mesh2: "map_of (meshes d') m2 = Some (quad_mesh (metres w) (metres h))"
    using m2_fresh by (simp add: ms map_of_append_old[OF mk1(2)] ms1 map_of_append_new del: map_of_append)
  have obj1: "map_of (objects d') ob = Some (mesh_object m1)"
    using ob_fresh by (simp add: a4 map_of_append_old[OF inK1(1)] o1 map_of_append_new del: map_of_append)
  have obj2: "map_of (objects d') ucx = Some (mesh_object m2)"
    using ucx_fresh by (simp add: a4 map_of_append_old[OF inK1(2)] o1 map_of_append_new del: map_of_append)
  have geo: "object_mesh d' ob = Some (expected_mesh p)" "object_mesh d' ucx = Some (expected_quad p)"
    by (simp_all add: object_mesh_def obj1 obj2 mesh_object_def mesh1 mesh2 em eq)
  have pre: "\<exists>s. ob = pair_name p @ s" "\<exists>s. ucx = ''UCX_'' @ pair_name p @ s"
    unfolding name_p ob ucx
    using unique_name_prefix[of "map fst (objects d)" ?s]
      unique_name_prefix[of "map fst (objects d) @ [unique_name (map fst (objects d)) ?s]"
        "''UCX_'' @ ?s"]
    by simp_all
  have b10: "\<forall>q \<in> set (p # ps). (\<exists>s. fst (N q) = pair_name q @ s)
                      \<and> (\<exists>s. snd (N q) = ''UCX_'' @ pair_name q @ s)
                      \<and> object_mesh d' (fst (N q)) = Some (expected_mesh q)
                      \<and> object_mesh d' (snd (N q)) = Some (expected_quad q)"
  proof
    fix q assume "q \<in> set (p # ps)"
    then consider "q = p" | "q \<in> set ps" by auto
    then show "(\<exists>s. fst (N q) = pair_name q @ s)
                      \<and> (\<exists>s. snd (N q) = ''UCX_'' @ pair_name q @ s)
                      \<and> object_mesh d' (fst (N q)) = Some (expected_mesh q)
                      \<and> object_mesh d' (snd (N q)) = Some (expected_quad q)"
    proof cases
      case 1
      then show ?thesis using pre geo by (simp add: Np)
    next
      case 2
      then show ?thesis using a10 by (simp add: Nq)
    qed
  qed
  have b11: "(\<forall>q \<in> set (p # ps). pair_name q \<notin> ?K \<and> ''UCX_'' @ pair_name q \<notin> ?K)
          \<longrightarrow> (\<forall>q \<in> set (p # ps). N q = (pair_name q, ''UCX_'' @ pair_name q))"
  proof (intro impI)
    assume H: "\<forall>q \<in> set (p # ps). pair_name q \<notin> ?K \<and> ''UCX_'' @ pair_name q \<notin> ?K"
    then have "?s \<notin> set (map fst (objects d))" "''UCX_'' @ ?s \<notin> ?K"
      by (simp_all add: name_p)
    then have obx: "ob = ?s" by (simp add: ob unique_name_free)
    have "''UCX_'' @ ?s \<noteq> ?s" by simp
    then have "''UCX_'' @ ?s \<notin> set (map fst (objects d) @ [ob])"
      using \<open>''UCX_'' @ ?s \<notin> ?K\<close> by (simp add: obx)
    then have ucxx: "ucx = ''UCX_'' @ ?s" unfolding ucx by (rule unique_name_free)
    have "\<forall>q \<in> set ps. pair_name q \<notin> fst ` set (objects d1)
                       \<and> ''UCX_'' @ pair_name q \<notin> fst ` set (objects d1)"
    proof
      fix q assume q: "q \<in> set ps"
      have q0: "0 \<le> fst q" "0 \<le> snd q" using nns q by simp_all
      have "pair_name q \<noteq> ''UCX_'' @ ?s"
        using size_name_neq_ucx[OF q0] by (simp add: pair_name_def)
      moreover have "''UCX_'' @ pair_name q \<noteq> ?s"
        using size_name_neq_ucx[OF nn, of "pair_name q"] by simp
      ultimately show "pair_name q \<notin> fst ` set (objects d1)
                       \<and> ''UCX_'' @ pair_name q \<notin> fst ` set (objects d1)"
        using H q ne[OF q] by (simp add: K1 obx ucxx)
    qed
    with a11 have "\<forall>q \<in> set ps. N' q = (pair_name q, ''UCX_'' @ pair_name q)" by blast
    then show "\<forall>q \<in> set (p # ps). N q = (pair_name q, ''UCX_'' @ pair_name q)"
      using Nq by (simp add: Np obx ucxx name_p)
  qed
  have n0: "new_objects d d' = news0" by (simp add: new_objects_def b4)
  have "created d (p # ps) d' N"
    unfolding created_def n0 by (intro conjI b1 b2 b3 b4 b5 b6 b7 b8 b9 b10 b11 a12)
  with run show ?case by blast
qed

subsection \<open>Sorting a list that is in order already\<close>

lemma insort_lt_last: "\<forall>y \<in> set acc. \<not> lt x y \<Longrightarrow> insort_lt lt x acc = acc @ [x]"
  by (induction acc) simp_all

lemma foldl_insort_in_order:
  assumes "sorted_wrt (\<lambda>a b. \<not> lt b a) xs" and "\<forall>x \<in> set xs. \<forall>y \<in> set acc. \<not> lt x y"
  shows "foldl (\<lambda>acc x. insort_lt lt x acc) acc xs = acc @ xs"
  using assms
proof (induction xs arbitrary: acc)
  case Nil
  then show ?case by simp
next
  case (Cons x xs)
  have "insort_lt lt x acc = acc @ [x]"
    using Cons.prems(2) by (simp add: insort_lt_last)
  moreover have "foldl (\<lambda>acc x. insort_lt lt x acc) (acc @ [x]) xs = (acc @ [x]) @ xs"
    by (rule Cons.IH) (use Cons.prems in auto)
  ultimately show ?case by simp
qed

lemma py_sorted_in_order:
  "sorted_wrt (\<lambda>a b. \<not> lt b a) xs \<Longrightarrow> py_sorted lt xs = xs"
  using foldl_insort_in_order[of lt xs "[]"] by (simp add: py_sorted_def)

lemma sorted_wrt_map_mono:
  assumes "sorted_wrt P xs" and "\<And>a b. a \<in> set xs \<Longrightarrow> b \<in> set xs \<Longrightarrow> P a b \<Longrightarrow> Q (f a) (f b)"
  shows "sorted_wrt Q (map f xs)"
  using assms by (induction xs) (auto simp: sorted_wrt_map)

lemma ascending_distinct: "ascending sizes \<Longrightarrow> distinct sizes"
  unfolding ascending_def using strict_sorted_iff by (metis sorted_wrt_iff_nth_less distinct_conv_nth
      less_irrefl linorder_neqE_nat)

lemma ascending_nonneg: "ascending sizes \<Longrightarrow> \<forall>s \<in> set sizes. 0 \<le> s"
  by (simp add: ascending_def)

lemma width_names_in_order:
  assumes "ascending sizes"
  shows "py_sorted int_key_less (map py_str sizes) = map py_str sizes"
proof (rule py_sorted_in_order, rule sorted_wrt_map_mono)
  show "sorted_wrt (<) sizes" using assms by (simp add: ascending_def)
next
  fix a b assume "a \<in> set sizes" "b \<in> set sizes" "a < b"
  then show "\<not> int_key_less (py_str b) (py_str a)"
    using assms by (simp add: int_key_less_def py_int_py_str ascending_def)
qed

lemma alnum_less_size_name:
  "0 \<le> w \<Longrightarrow> 0 \<le> a \<Longrightarrow> 0 \<le> b \<Longrightarrow> alnum_less (size_name w a) (size_name w b) \<longleftrightarrow> a < b"
  by (simp add: alnum_less_def alnum_key_size_name)

lemma height_names_in_order:
  assumes "ascending sizes" and "0 \<le> w"
  shows "sorted_alnum (map (size_name w) sizes) = Inr (map (size_name w) sizes)"
proof -
  have nn: "\<forall>s \<in> set sizes. 0 \<le> s" using assms(1) by (simp add: ascending_def)
  have "key_less (alnum_key a) (alnum_key b) \<noteq> Inl TypeError"
    if "a \<in> set (map (size_name w) sizes)" "b \<in> set (map (size_name w) sizes)" for a b
    using that nn assms(2) by (auto simp: alnum_key_size_name split: if_splits)
  then have ok: "\<not> (\<exists>a \<in> set (map (size_name w) sizes). \<exists>b \<in> set (map (size_name w) sizes).
                    key_less (alnum_key a) (alnum_key b) = Inl TypeError)"
    by blast
  have "py_sorted alnum_less (map (size_name w) sizes) = map (size_name w) sizes"
  proof (rule py_sorted_in_order, rule sorted_wrt_map_mono)
    show "sorted_wrt (<) sizes" using assms(1) by (simp add: ascending_def)
  next
    fix a b assume "a \<in> set sizes" "b \<in> set sizes" "a < b"
    then show "\<not> alnum_less (size_name w b) (size_name w a)"
      using nn assms(2) by (simp add: alnum_less_size_name)
  qed
  then show ?thesis using ok by (simp only: sorted_alnum_def if_False)
qed

lemma py_sorted_pair:
  "\<not> lt b a \<Longrightarrow> py_sorted lt [a, b] = [a, b]"
  by (simp add: py_sorted_def)

subsection \<open>Unlinking and re-linking the members of a collection\<close>

lemma same_data_refl [simp]: "same_data d d"
  by (simp add: same_data_def)

lemma same_data_trans: "same_data d d1 \<Longrightarrow> same_data d1 d2 \<Longrightarrow> same_data d d2"
  by (simp add: same_data_def)

lemma same_data_update [simp]: "same_data d (update_collection r f d)"
  by (simp add: same_data_def)

lemma for_each_append:
  "for_each body (xs @ ys) s = py_bind (for_each body xs s) (for_each body ys)"
  by (induction xs arbitrary: s) (auto split: sum.splits)

lemma children_unlink_ok:
  assumes "col d p = Some c" and "x \<in> set (col_children c)"
  shows "children_unlink (Collection p) x d
         = Inr (update_collection (Collection p)
                  (\<lambda>c. c\<lparr>col_children := removeAll x (col_children c)\<rparr>) d)"
  using assms by (simp add: children_unlink_def get_collection_def col_def)

lemma children_link_ok:
  assumes "col d p = Some c" and "x \<notin> set (col_children c)"
  shows "children_link (Collection p) x d
         = Inr (update_collection (Collection p)
                  (\<lambda>c. c\<lparr>col_children := col_children c @ [x]\<rparr>) d)"
  using assms by (simp add: children_link_def get_collection_def col_def)

lemma objects_unlink_ok:
  assumes "col d p = Some c" and "x \<in> set (col_objects c)"
  shows "objects_unlink (Collection p) x d
         = Inr (update_collection (Collection p)
                  (\<lambda>c. c\<lparr>col_objects := removeAll x (col_objects c)\<rparr>) d)"
  using assms by (simp add: objects_unlink_def get_collection_def col_def)

lemma unlink_all_children:
  assumes "col d p = Some c" and "col_children c = xs" and "distinct xs"
  shows "\<exists>d'. for_each (children_unlink (Collection p)) xs d = Inr d'
            \<and> col d' = (col d)(p \<mapsto> c\<lparr>col_children := []\<rparr>)
            \<and> scene_collection d' = scene_collection d \<and> same_data d d'"
  using assms
proof (induction xs arbitrary: d c)
  case Nil
  then have "(col d)(p \<mapsto> c\<lparr>col_children := []\<rparr>) = col d" by (auto simp: fun_eq_iff)
  then show ?case by simp
next
  case (Cons x xs)
  define d1 where "d1 = update_collection (Collection p)
                          (\<lambda>c. c\<lparr>col_children := removeAll x (col_children c)\<rparr>) d"
  define c1 where "c1 = c\<lparr>col_children := xs\<rparr>"
  have step: "children_unlink (Collection p) x d = Inr d1"
    unfolding d1_def by (rule children_unlink_ok[OF Cons.prems(1)]) (simp add: Cons.prems(2))
  have "removeAll x (col_children c) = xs"
    using Cons.prems(2,3) by (simp add: removeAll_id)
  then have c1: "col d1 = (col d)(p \<mapsto> c1)"
    by (simp add: d1_def col_update_collection Cons.prems(1) c1_def)
  have "\<exists>d'. for_each (children_unlink (Collection p)) xs d1 = Inr d'
            \<and> col d' = (col d1)(p \<mapsto> c1\<lparr>col_children := []\<rparr>)
            \<and> scene_collection d' = scene_collection d1 \<and> same_data d1 d'"
    by (rule Cons.IH) (use c1 Cons.prems(3) in \<open>simp_all add: c1_def\<close>)
  then obtain d' where r: "for_each (children_unlink (Collection p)) xs d1 = Inr d'"
    and c': "col d' = (col d1)(p \<mapsto> c1\<lparr>col_children := []\<rparr>)"
    and f': "scene_collection d' = scene_collection d1" "same_data d1 d'"
    by blast
  have "col d' = (col d)(p \<mapsto> c\<lparr>col_children := []\<rparr>)"
    by (simp add: c' c1 c1_def)
  moreover have "scene_collection d' = scene_collection d" by (simp add: f' d1_def)
  moreover have "same_data d d'"
    by (rule same_data_trans[OF _ f'(2)]) (simp add: d1_def)
  moreover have "for_each (children_unlink (Collection p)) (x # xs) d = Inr d'"
    using step r by simp
  ultimately show ?case by blast
qed

lemma unlink_all_objects:
  assumes "col d p = Some c" and "col_objects c = xs" and "distinct xs"
  shows "\<exists>d'. for_each (objects_unlink (Collection p)) xs d = Inr d'
            \<and> col d' = (col d)(p \<mapsto> c\<lparr>col_objects := []\<rparr>)
            \<and> scene_collection d' = scene_collection d \<and> same_data d d'"
  using assms
proof (induction xs arbitrary: d c)
  case Nil
  then have "(col d)(p \<mapsto> c\<lparr>col_objects := []\<rparr>) = col d" by (auto simp: fun_eq_iff)
  then show ?case by simp
next
  case (Cons x xs)
  define d1 where "d1 = update_collection (Collection p)
                          (\<lambda>c. c\<lparr>col_objects := removeAll x (col_objects c)\<rparr>) d"
  define c1 where "c1 = c\<lparr>col_objects := xs\<rparr>"
  have step: "objects_unlink (Collection p) x d = Inr d1"
    unfolding d1_def by (rule objects_unlink_ok[OF Cons.prems(1)]) (simp add: Cons.prems(2))
  have "removeAll x (col_objects c) = xs"
    using Cons.prems(2,3) by (simp add: removeAll_id)
  then have c1: "col d1 = (col d)(p \<mapsto> c1)"
    by (simp add: d1_def col_update_collection Cons.prems(1) c1_def)
  have "\<exists>d'. for_each (objects_unlink (Collection p)) xs d1 = Inr d'
            \<and> col d' = (col d1)(p \<mapsto> c1\<lparr>col_objects := []\<rparr>)
            \<and> scene_collection d' = scene_collection d1 \<and> same_data d1 d'"
    by (rule Cons.IH) (use c1 Cons.prems(3) in \<open>simp_all add: c1_def\<close>)
  then obtain d' where r: "for_each (objects_unlink (Collection p)) xs d1 = Inr d'"
    and c': "col d' = (col d1)(p \<mapsto> c1\<lparr>col_objects := []\<rparr>)"
    and f': "scene_collection d' = scene_collection d1" "same_data d1 d'"
    by blast
  have "col d' = (col d)(p \<mapsto> c\<lparr>col_objects := []\<rparr>)"
    by (simp add: c' c1 c1_def)
  moreover have "scene_collection d' = scene_collection d" by (simp add: f' d1_def)
  moreover have "same_data d d'"
    by (rule same_data_trans[OF _ f'(2)]) (simp add: d1_def)
  moreover have "for_each (objects_unlink (Collection p)) (x # xs) d = Inr d'"
    using step r by simp
  ultimately show ?case by blast
qed

lemma link_all_objects:
  assumes "col d p = Some c" and "distinct (col_objects c @ xs)"
  shows "\<exists>d'. for_each (objects_link (Collection p)) xs d = Inr d'
            \<and> col d' = (col d)(p \<mapsto> c\<lparr>col_objects := col_objects c @ xs\<rparr>)
            \<and> scene_collection d' = scene_collection d \<and> same_data d d'"
  using assms
proof (induction xs arbitrary: d c)
  case Nil
  then have "(col d)(p \<mapsto> c\<lparr>col_objects := col_objects c @ []\<rparr>) = col d"
    by (auto simp: fun_eq_iff)
  then show ?case by simp
next
  case (Cons x xs)
  define d1 where "d1 = update_collection (Collection p)
                          (\<lambda>c. c\<lparr>col_objects := col_objects c @ [x]\<rparr>) d"
  define c1 where "c1 = c\<lparr>col_objects := col_objects c @ [x]\<rparr>"
  have step: "objects_link (Collection p) x d = Inr d1"
    unfolding d1_def by (rule objects_link_ok[OF Cons.prems(1)]) (use Cons.prems(2) in simp)
  have c1: "col d1 = (col d)(p \<mapsto> c1)"
    by (simp add: d1_def col_update_collection Cons.prems(1) c1_def)
  have "\<exists>d'. for_each (objects_link (Collection p)) xs d1 = Inr d'
            \<and> col d' = (col d1)(p \<mapsto> c1\<lparr>col_objects := col_objects c1 @ xs\<rparr>)
            \<and> scene_collection d' = scene_collection d1 \<and> same_data d1 d'"
    by (rule Cons.IH) (use c1 Cons.prems(2) in \<open>simp_all add: c1_def\<close>)
  then obtain d' where r: "for_each (objects_link (Collection p)) xs d1 = Inr d'"
    and c': "col d' = (col d1)(p \<mapsto> c1\<lparr>col_objects := col_objects c1 @ xs\<rparr>)"
    and f': "scene_collection d' = scene_collection d1" "same_data d1 d'"
    by blast
  have "col d' = (col d)(p \<mapsto> c\<lparr>col_objects := col_objects c @ x # xs\<rparr>)"
    by (simp add: c' c1 c1_def)
  moreover have "scene_collection d' = scene_collection d" by (simp add: f' d1_def)
  moreover have "same_data d d'"
    by (rule same_data_trans[OF _ f'(2)]) (simp add: d1_def)
  moreover have "for_each (objects_link (Collection p)) (x # xs) d = Inr d'"
    using step r by simp
  ultimately show ?case by blast
qed

lemma sort_objects_in_order:
  assumes "col d s = Some c" and "objects_in_order c"
  shows "\<exists>d'. sort_objects s d = Inr d' \<and> col d' = col d
            \<and> scene_collection d' = scene_collection d \<and> same_data d d'"
proof -
  have dist: "distinct (col_objects c)" and srt: "py_sorted str_less (col_objects c) = col_objects c"
    using assms(2) by (simp_all add: objects_in_order_def)
  from unlink_all_objects[OF assms(1) refl dist]
  obtain d1 where u: "for_each (objects_unlink (Collection s)) (col_objects c) d = Inr d1"
    and c1: "col d1 = (col d)(s \<mapsto> c\<lparr>col_objects := []\<rparr>)"
    and f1: "scene_collection d1 = scene_collection d" "same_data d d1"
    by blast
  have "col d1 s = Some (c\<lparr>col_objects := []\<rparr>)" by (simp add: c1)
  from link_all_objects[OF this, of "col_objects c"] dist
  obtain d2 where l: "for_each (objects_link (Collection s)) (col_objects c) d1 = Inr d2"
    and c2: "col d2 = (col d1)(s \<mapsto> c\<lparr>col_objects := []\<rparr>\<lparr>col_objects := col_objects (c\<lparr>col_objects := []\<rparr>) @ col_objects c\<rparr>)"
    and f2: "scene_collection d2 = scene_collection d1" "same_data d1 d2"
    by auto
  have "sort_objects s d = Inr d2"
    using assms(1) by (simp add: sort_objects_def col_def[symmetric] Let_def srt u l)
  moreover have "col d2 = col d"
    using assms(1) by (auto simp: c2 c1 fun_eq_iff)
  moreover have "same_data d d2" by (rule same_data_trans[OF f1(2) f2(2)])
  ultimately show ?thesis using f1 f2 by simp
qed

lemma relink_children:
  assumes "col d wn = Some c" and "distinct (col_children c @ names)"
    and "\<forall>sn \<in> set names. sn \<noteq> wn \<and> (\<exists>cs. col d sn = Some cs \<and> objects_in_order cs)"
  shows "\<exists>d'. for_each (\<lambda>subcol_name d'.
                 case map_of (collections d') subcol_name of
                   None \<Rightarrow> Inl KeyError
                 | Some _ \<Rightarrow> py_bind (children_link (Collection wn) subcol_name d')
                                     (sort_objects subcol_name)) names d = Inr d'
            \<and> col d' = (col d)(wn \<mapsto> c\<lparr>col_children := col_children c @ names\<rparr>)
            \<and> scene_collection d' = scene_collection d \<and> same_data d d'"
  using assms
proof (induction names arbitrary: d c)
  case Nil
  then have "(col d)(wn \<mapsto> c\<lparr>col_children := col_children c @ []\<rparr>) = col d"
    by (auto simp: fun_eq_iff)
  then show ?case by simp
next
  case (Cons x xs)
  let ?body = "\<lambda>subcol_name d'.
                 case map_of (collections d') subcol_name of
                   None \<Rightarrow> Inl KeyError
                 | Some _ \<Rightarrow> py_bind (children_link (Collection wn) subcol_name d')
                                     (sort_objects subcol_name)"
  from Cons.prems(3) obtain cs where xw: "x \<noteq> wn" and cx: "col d x = Some cs"
    and ox: "objects_in_order cs" by auto
  define d1 where "d1 = update_collection (Collection wn)
                          (\<lambda>c. c\<lparr>col_children := col_children c @ [x]\<rparr>) d"
  define c1 where "c1 = c\<lparr>col_children := col_children c @ [x]\<rparr>"
  have l: "children_link (Collection wn) x d = Inr d1"
    unfolding d1_def by (rule children_link_ok[OF Cons.prems(1)]) (use Cons.prems(2) in simp)
  have c1: "col d1 = (col d)(wn \<mapsto> c1)"
    by (simp add: d1_def col_update_collection Cons.prems(1) c1_def)
  have "col d1 x = Some cs" using xw cx by (simp add: c1)
  from sort_objects_in_order[OF this ox]
  obtain d2 where s: "sort_objects x d1 = Inr d2" and c2: "col d2 = col d1"
    and f2: "scene_collection d2 = scene_collection d1" "same_data d1 d2"
    by blast
  have step: "?body x d = Inr d2"
    using cx by (simp add: col_def[symmetric] l s)
  have "\<exists>d'. for_each ?body xs d2 = Inr d'
            \<and> col d' = (col d2)(wn \<mapsto> c1\<lparr>col_children := col_children c1 @ xs\<rparr>)
            \<and> scene_collection d' = scene_collection d2 \<and> same_data d2 d'"
  proof (rule Cons.IH)
    show "col d2 wn = Some c1" by (simp add: c2 c1)
    show "distinct (col_children c1 @ xs)" using Cons.prems(2) by (simp add: c1_def)
    show "\<forall>sn \<in> set xs. sn \<noteq> wn \<and> (\<exists>cs. col d2 sn = Some cs \<and> objects_in_order cs)"
      using Cons.prems(3) by (simp add: c2 c1)
  qed
  then obtain d' where r: "for_each ?body xs d2 = Inr d'"
    and c': "col d' = (col d2)(wn \<mapsto> c1\<lparr>col_children := col_children c1 @ xs\<rparr>)"
    and f': "scene_collection d' = scene_collection d2" "same_data d2 d'"
    by blast
  have "col d' = (col d)(wn \<mapsto> c\<lparr>col_children := col_children c @ x # xs\<rparr>)"
    by (simp add: c' c2 c1 c1_def)
  moreover have "scene_collection d' = scene_collection d" by (simp add: f' f2 d1_def)
  moreover have "same_data d d'"
    by (rule same_data_trans[OF _ f'(2)], rule same_data_trans[OF _ f2(2)]) (simp add: d1_def)
  moreover have "for_each ?body (x # xs) d = Inr d'"
    by (simp only: for_each.simps step sum.case r)
  ultimately show ?case by blast
qed

lemma heights_in_order_cong:
  "col d' = col d \<Longrightarrow> heights_in_order d' wn = heights_in_order d wn"
  by (simp add: heights_in_order_def)

lemma sort_heights_in_order:
  assumes "heights_in_order d wn"
  shows "\<exists>d'. sort_heights wn d = Inr d' \<and> col d' = col d
            \<and> scene_collection d' = scene_collection d \<and> same_data d d'"
proof -
  from assms obtain c where c: "col d wn = Some c" and dist: "distinct (col_children c)"
    and srt: "sorted_alnum (col_children c) = Inr (col_children c)"
    and sub: "\<forall>sn \<in> set (col_children c).
                sn \<noteq> wn \<and> (\<exists>cs. col d sn = Some cs \<and> objects_in_order cs)"
    unfolding heights_in_order_def by blast
  let ?body = "\<lambda>subcol_name d'.
                 case map_of (collections d') subcol_name of
                   None \<Rightarrow> Inl KeyError
                 | Some _ \<Rightarrow> py_bind (children_link (Collection wn) subcol_name d')
                                     (sort_objects subcol_name)"
  define c0 where "c0 = c\<lparr>col_children := []\<rparr>"
  from unlink_all_children[OF c refl dist]
  obtain d1 where u: "for_each (children_unlink (Collection wn)) (col_children c) d = Inr d1"
    and c1: "col d1 = (col d)(wn \<mapsto> c0)"
    and f1: "scene_collection d1 = scene_collection d" "same_data d d1"
    unfolding c0_def by blast
  have "\<exists>d'. for_each ?body (col_children c) d1 = Inr d'
            \<and> col d' = (col d1)(wn \<mapsto> c0\<lparr>col_children := col_children c0 @ col_children c\<rparr>)
            \<and> scene_collection d' = scene_collection d1 \<and> same_data d1 d'"
  proof (rule relink_children)
    show "col d1 wn = Some c0" by (simp add: c1)
    show "distinct (col_children c0 @ col_children c)" using dist by (simp add: c0_def)
    show "\<forall>sn \<in> set (col_children c).
            sn \<noteq> wn \<and> (\<exists>cs. col d1 sn = Some cs \<and> objects_in_order cs)"
      using sub by (simp add: c1)
  qed
  then obtain d2 where l: "for_each ?body (col_children c) d1 = Inr d2"
    and c2: "col d2 = (col d1)(wn \<mapsto> c0\<lparr>col_children := col_children c0 @ col_children c\<rparr>)"
    and f2: "scene_collection d2 = scene_collection d1" "same_data d1 d2"
    by blast
  have "map_of (collections d) wn = Some c" using c by (simp add: col_def)
  then have "sort_heights wn d = Inr d2"
    by (simp only: sort_heights_def option.case srt py_bind_Inr u l)
  moreover have "col d2 = col d"
    using c by (auto simp: c2 c1 c0_def fun_eq_iff)
  moreover have "same_data d d2" by (rule same_data_trans[OF f1(2) f2(2)])
  ultimately show ?thesis using f1 f2 by simp
qed

subsection \<open>The width collections below the scene\<close>

lemma children_unlink_scene:
  assumes "x \<in> set (col_children (scene_collection d))"
  shows "children_unlink SceneCollection x d
         = Inr (d\<lparr>scene_collection := (scene_collection d)
                    \<lparr>col_children := removeAll x (col_children (scene_collection d))\<rparr>\<rparr>)"
  using assms by (simp add: children_unlink_def get_collection_def update_collection_def)

lemma children_link_scene:
  assumes "x \<notin> set (col_children (scene_collection d))"
  shows "children_link SceneCollection x d
         = Inr (d\<lparr>scene_collection := (scene_collection d)
                    \<lparr>col_children := col_children (scene_collection d) @ [x]\<rparr>\<rparr>)"
  using assms by (simp add: children_link_def get_collection_def update_collection_def)

lemma skip_scene_children:
  assumes "set cs \<inter> W = {}"
  shows "for_each (\<lambda>x d'. if x \<in> W then children_unlink SceneCollection x d' else Inr d') cs d
         = Inr d"
  using assms by (induction cs) auto

lemma unlink_scene_children:
  assumes "col_children (scene_collection d) = cs @ ws" and "distinct ws"
    and "set cs \<inter> set ws = {}" and "set ws \<subseteq> W"
  shows "\<exists>d'. for_each (\<lambda>x d'. if x \<in> W then children_unlink SceneCollection x d' else Inr d')
                 ws d = Inr d'
            \<and> scene_collection d' = (scene_collection d)\<lparr>col_children := cs\<rparr>
            \<and> collections d' = collections d \<and> same_data d d'"
  using assms
proof (induction ws arbitrary: d)
  case Nil
  then show ?case by simp
next
  case (Cons x xs)
  let ?body = "\<lambda>x d'. if x \<in> W then children_unlink SceneCollection x d' else Inr d'"
  define d1 where "d1 = d\<lparr>scene_collection := (scene_collection d)
                    \<lparr>col_children := removeAll x (col_children (scene_collection d))\<rparr>\<rparr>"
  have "x \<in> set (col_children (scene_collection d))" by (simp add: Cons.prems(1))
  then have "children_unlink SceneCollection x d = Inr d1"
    unfolding d1_def by (rule children_unlink_scene)
  then have step: "?body x d = Inr d1" using Cons.prems(4) by simp
  have "removeAll x (cs @ x # xs) = cs @ xs"
    using Cons.prems(2,3) by (simp add: removeAll_id)
  then have s1: "col_children (scene_collection d1) = cs @ xs"
    by (simp add: d1_def Cons.prems(1))
  have "\<exists>d'. for_each ?body xs d1 = Inr d'
            \<and> scene_collection d' = (scene_collection d1)\<lparr>col_children := cs\<rparr>
            \<and> collections d' = collections d1 \<and> same_data d1 d'"
    by (rule Cons.IH[OF s1]) (use Cons.prems in auto)
  then obtain d' where r: "for_each ?body xs d1 = Inr d'"
    and s': "scene_collection d' = (scene_collection d1)\<lparr>col_children := cs\<rparr>"
    and f': "collections d' = collections d1" "same_data d1 d'"
    by blast
  have "scene_collection d' = (scene_collection d)\<lparr>col_children := cs\<rparr>"
    by (simp add: s' d1_def)
  moreover have "collections d' = collections d" by (simp add: f' d1_def)
  moreover have "same_data d d'" using f'(2) by (simp add: same_data_def d1_def)
  moreover have "for_each ?body (x # xs) d = Inr d'"
    by (simp only: for_each.simps step sum.case r)
  ultimately show ?case by blast
qed

lemma link_scene_children:
  assumes "distinct ws" and "set (col_children (scene_collection d)) \<inter> set ws = {}"
    and "\<forall>wn \<in> set ws. heights_in_order d wn"
  shows "\<exists>d'. for_each (\<lambda>col_name d'.
                 case map_of (collections d') col_name of
                   None \<Rightarrow> Inl KeyError
                 | Some _ \<Rightarrow> py_bind (children_link SceneCollection col_name d')
                                     (sort_heights col_name)) ws d = Inr d'
            \<and> col d' = col d
            \<and> scene_collection d'
                = (scene_collection d)\<lparr>col_children := col_children (scene_collection d) @ ws\<rparr>
            \<and> same_data d d'"
  using assms
proof (induction ws arbitrary: d)
  case Nil
  then show ?case by simp
next
  case (Cons x xs)
  let ?body = "\<lambda>col_name d'.
                 case map_of (collections d') col_name of
                   None \<Rightarrow> Inl KeyError
                 | Some _ \<Rightarrow> py_bind (children_link SceneCollection col_name d')
                                     (sort_heights col_name)"
  define d1 where "d1 = d\<lparr>scene_collection := (scene_collection d)
                    \<lparr>col_children := col_children (scene_collection d) @ [x]\<rparr>\<rparr>"
  have hx: "heights_in_order d x" using Cons.prems(3) by simp
  then obtain c where cx: "col d x = Some c" unfolding heights_in_order_def by blast
  have "x \<notin> set (col_children (scene_collection d))" using Cons.prems(2) by simp
  then have l: "children_link SceneCollection x d = Inr d1"
    unfolding d1_def by (rule children_link_scene)
  have c1: "col d1 = col d" by (simp add: d1_def col_def)
  have "heights_in_order d1 x" using hx by (simp add: heights_in_order_cong[OF c1])
  from sort_heights_in_order[OF this]
  obtain d2 where s: "sort_heights x d1 = Inr d2" and c2: "col d2 = col d1"
    and f2: "scene_collection d2 = scene_collection d1" "same_data d1 d2"
    by blast
  have step: "?body x d = Inr d2"
    using cx by (simp add: col_def[symmetric] l s)
  have c2d: "col d2 = col d" by (simp add: c2 c1)
  have "\<exists>d'. for_each ?body xs d2 = Inr d'
            \<and> col d' = col d2
            \<and> scene_collection d'
                = (scene_collection d2)\<lparr>col_children := col_children (scene_collection d2) @ xs\<rparr>
            \<and> same_data d2 d'"
  proof (rule Cons.IH)
    show "distinct xs" using Cons.prems(1) by simp
    show "set (col_children (scene_collection d2)) \<inter> set xs = {}"
      using Cons.prems(1,2) by (auto simp: f2 d1_def)
    show "\<forall>wn \<in> set xs. heights_in_order d2 wn"
      using Cons.prems(3) by (simp add: heights_in_order_cong[OF c2d])
  qed
  then obtain d' where r: "for_each ?body xs d2 = Inr d'"
    and c': "col d' = col d2"
    and s': "scene_collection d'
                = (scene_collection d2)\<lparr>col_children := col_children (scene_collection d2) @ xs\<rparr>"
    and f': "same_data d2 d'"
    by blast
  have "col d' = col d" by (simp add: c' c2d)
  moreover have "scene_collection d'
      = (scene_collection d)\<lparr>col_children := col_children (scene_collection d) @ x # xs\<rparr>"
    by (simp add: s' f2 d1_def)
  moreover have "same_data d d'"
    using f' f2(2) by (simp add: same_data_def d1_def)
  moreover have "for_each ?body (x # xs) d = Inr d'"
    by (simp only: for_each.simps step sum.case r)
  ultimately show ?case by blast
qed

text \<open>The sorting stage leaves a hierarchy that is in order as it is.\<close>

lemma sorting_in_order:
  assumes "col_children (scene_collection d) = cs @ ws"
    and "\<forall>n \<in> set cs. \<not> isdigit n" and "\<forall>n \<in> set ws. isdigit n"
    and "distinct ws" and "py_sorted int_key_less ws = ws"
    and "\<forall>wn \<in> set ws. heights_in_order d wn"
  shows "\<exists>d'. sorting d = Inr d' \<and> col d' = col d
            \<and> scene_collection d' = scene_collection d \<and> same_data d d'"
proof -
  have flt: "filter isdigit (cs @ ws) = ws"
    using assms(2,3) by (simp add: filter_empty_conv filter_id_conv)
  have disj: "set cs \<inter> set ws = {}" using assms(2,3) by auto
  let ?skip = "\<lambda>x d'. if x \<in> set ws then children_unlink SceneCollection x d' else Inr d'"
  from unlink_scene_children[OF assms(1,4) disj subset_refl]
  obtain d1 where u: "for_each ?skip ws d = Inr d1"
    and s1: "scene_collection d1 = (scene_collection d)\<lparr>col_children := cs\<rparr>"
    and f1: "collections d1 = collections d" "same_data d d1"
    by blast
  have u': "for_each ?skip (cs @ ws) d = Inr d1"
    by (simp add: for_each_append skip_scene_children[OF disj] u)
  have c1: "col d1 = col d" by (simp add: col_def f1)
  let ?body = "\<lambda>col_name d'.
                 case map_of (collections d') col_name of
                   None \<Rightarrow> Inl KeyError
                 | Some _ \<Rightarrow> py_bind (children_link SceneCollection col_name d')
                                     (sort_heights col_name)"
  have "\<exists>d'. for_each ?body ws d1 = Inr d' \<and> col d' = col d1
            \<and> scene_collection d'
                = (scene_collection d1)\<lparr>col_children := col_children (scene_collection d1) @ ws\<rparr>
            \<and> same_data d1 d'"
  proof (rule link_scene_children[OF assms(4)])
    show "set (col_children (scene_collection d1)) \<inter> set ws = {}" using disj by (simp add: s1)
    show "\<forall>wn \<in> set ws. heights_in_order d1 wn"
      using assms(6) by (simp add: heights_in_order_cong[OF c1])
  qed
  then obtain d2 where l: "for_each ?body ws d1 = Inr d2" and c2: "col d2 = col d1"
    and s2: "scene_collection d2
                = (scene_collection d1)\<lparr>col_children := col_children (scene_collection d1) @ ws\<rparr>"
    and f2: "same_data d1 d2"
    by blast
  have "sorting d = Inr d2"
    by (simp only: sorting_def Let_def assms(1) flt assms(5) u' py_bind_Inr l)
  moreover have "col d2 = col d" by (simp add: c2 c1)
  moreover have "scene_collection d2 = scene_collection d"
    by (simp add: s2 s1 assms(1)[symmetric])
  moreover have "same_data d d2" by (rule same_data_trans[OF f1(2) f2])
  ultimately show ?thesis by blast
qed

subsection \<open>The document after a whole run\<close>

lemma generatedD:
  assumes "generated d0 d' N"
  shows "scene_collection d'
       = (scene_collection d0)
           \<lparr>col_children := col_children (scene_collection d0) @ map py_str PLANE_SIZES_CM\<rparr>"
    and "\<forall>w \<in> set PLANE_SIZES_CM.
           col d' (py_str w) = Some (width_collection_of PLANE_SIZES_CM w)"
    and "\<forall>p \<in> set size_pairs. col d' (pair_name p)
                     = Some \<lparr>col_children = [], col_objects = [fst (N p), snd (N p)]\<rparr>"
    and "\<forall>n. n \<notin> py_str ` set PLANE_SIZES_CM \<union> pair_name ` set size_pairs
              \<longrightarrow> col d' n = col d0 n"
    and "objects d' = objects d0 @ new_objects d0 d'"
    and "map fst (new_objects d0 d') = concat (map (\<lambda>p. [fst (N p), snd (N p)]) size_pairs)"
    and "\<forall>x \<in> set (new_objects d0 d'). obj_type (snd x) = ''MESH''"
    and "distinct (map fst (new_objects d0 d'))"
    and "fst ` set (new_objects d0 d') \<inter> fst ` set (objects d0) = {}"
    and "take (length (meshes d0)) (meshes d') = meshes d0"
    and "\<forall>p \<in> set size_pairs.
           (\<exists>s. fst (N p) = pair_name p @ s)
           \<and> (\<exists>s. snd (N p) = ''UCX_'' @ pair_name p @ s)
           \<and> object_mesh d' (fst (N p)) = Some (expected_mesh p)
           \<and> object_mesh d' (snd (N p)) = Some (expected_quad p)"
    and "(\<forall>p \<in> set size_pairs. pair_name p \<notin> fst ` set (objects d0)
                       \<and> ''UCX_'' @ pair_name p \<notin> fst ` set (objects d0))
          \<longrightarrow> (\<forall>p \<in> set size_pairs. N p = (pair_name p, ''UCX_'' @ pair_name p))"
    and "links_ok d'"
  using assms unfolding generated_def by - ((elim conjE, assumption)+)

lemma ascending_sizes: "ascending PLANE_SIZES_CM"
  by (simp add: ascending_def PLANE_SIZES_CM_def)

lemma itertools_product_map:
  "itertools_product (map f xs) (map g ys) = map (map_prod f g) (itertools_product xs ys)"
  by (induction xs) simp_all

lemma size_pairs_metres: "PLANE_SIZE_PAIRS = map pair_metres size_pairs"
proof -
  have pm: "pair_metres = map_prod metres metres"
    by (rule ext) (simp add: pair_metres_def map_prod_def case_prod_beta)
  have m: "PLANE_SIZES_M = map metres PLANE_SIZES_CM"
    by (simp add: PLANE_SIZES_M_def metres_def[abs_def])
  show ?thesis
    unfolding PLANE_SIZE_PAIRS_def size_pairs_def m pm by (rule itertools_product_map)
qed

lemma set_size_pairs: "set size_pairs = set PLANE_SIZES_CM \<times> set PLANE_SIZES_CM"
  by (simp add: size_pairs_def set_itertools_product)

lemma size_names_pairs: "size_names PLANE_SIZES_CM PLANE_SIZES_CM = pair_name ` set size_pairs"
proof -
  have "size_names PLANE_SIZES_CM PLANE_SIZES_CM
        = (\<lambda>p. size_name (fst p) (snd p)) ` (set PLANE_SIZES_CM \<times> set PLANE_SIZES_CM)"
    unfolding size_names_def by force
  then show ?thesis by (simp add: set_size_pairs pair_name_def[abs_def])
qed

lemma clean_links_ok:
  assumes "clean d"
  shows "links_ok d"
proof -
  have a: "set (col_objects (scene_collection d)) \<subseteq> fst ` set (objects d)"
    and b: "\<forall>(k, c) \<in> set (collections d). set (col_objects c) \<subseteq> fst ` set (objects d)"
    using assms by (simp_all add: clean_def)
  have "set (col_objects c) \<subseteq> fst ` set (objects d)" if "col d n = Some c" for n c
  proof -
    from that have "(n, c) \<in> set (collections d)" by (simp add: col_def map_of_SomeD)
    with b show ?thesis by blast
  qed
  with a show ?thesis by (simp add: links_ok_def)
qed

lemma clean_col_None:
  assumes "clean d" and "generated_name n"
  shows "col d n = None"
proof -
  from assms have "n \<notin> fst ` set (collections d)" unfolding clean_def by blast
  then show ?thesis by (simp add: col_None_iff)
qed

lemma clean_scene:
  assumes "clean d" and "n \<in> set (col_children (scene_collection d))"
  shows "\<not> generated_name n"
  using assms unfolding clean_def by blast

lemma pair_objects_in_order:
  assumes "0 \<le> fst p" and "a = pair_name p @ s" and "b = ''UCX_'' @ pair_name p @ t"
  shows "objects_in_order \<lparr>col_children = [], col_objects = [a, b]\<rparr>"
proof -
  have ne: "a \<noteq> []" using size_name_nonempty by (simp add: assms(2) pair_name_def)
  have "hd a = hd (size_name (fst p) (snd p))"
    using size_name_nonempty by (simp add: assms(2) pair_name_def)
  then have hd: "hd a \<in> set ''0123456789''"
    using hd_size_name_digit[OF assms(1)] by simp
  have b: "b = CHR ''U'' # (''CX_'' @ pair_name p @ t)" by (simp add: assms(3))
  have nl: "\<not> str_less b a" unfolding b by (rule str_less_digit_U(2)[OF ne hd])
  have "str_less a b" unfolding b by (rule str_less_digit_U(1)[OF ne hd])
  with nl have "a \<noteq> b" by auto
  moreover have "py_sorted str_less [a, b] = [a, b]"
    using nl by (rule py_sorted_pair)
  ultimately show ?thesis by (simp add: objects_in_order_def)
qed

lemma generate_effect:
  assumes "well_formed d"
  shows "\<exists>d' N. generate d = Inr d' \<and> generated (cleanup d) d' N"
proof -
  let ?S = "PLANE_SIZES_CM"
  define d0 where "d0 = cleanup d"
  have cl: "clean d0" unfolding d0_def by (rule cleanup_clean[OF assms])
  have asc: "ascending ?S" by (rule ascending_sizes)
  have nn: "\<forall>s \<in> set ?S. 0 \<le> s" by (rule ascending_nonneg[OF asc])
  have dist: "distinct ?S" by (rule ascending_distinct[OF asc])
  have ppos: "\<forall>p \<in> set size_pairs. 0 \<le> fst p \<and> 0 \<le> snd p"
    using nn by (auto simp: set_size_pairs)
  have pdist: "distinct size_pairs"
    unfolding size_pairs_def by (rule distinct_itertools_product[OF dist dist])
  \<comment> \<open>the hierarchy\<close>
  have "\<exists>d1 hm. for_each (build_width ?S) ?S (d0, Map.empty) = Inr (d1, hm)
           \<and> col d1 = (\<lambda>n. if n \<in> py_str ` set ?S
                           then Some (width_collection_of ?S (py_int n))
                           else if n \<in> size_names ?S ?S then Some empty_collection
                           else col d0 n)
           \<and> hm = (\<lambda>p. if fst p \<in> set ?S \<and> snd p \<in> set ?S
                         then Some (size_name (fst p) (snd p)) else Map.empty p)
           \<and> scene_collection d1
               = (scene_collection d0)\<lparr>col_children := col_children (scene_collection d0) @ map py_str ?S\<rparr>
           \<and> objects d1 = objects d0 \<and> meshes d1 = meshes d0"
  proof (rule build_hierarchy_effect[OF nn dist nn dist])
    show "\<forall>w \<in> set ?S. col d0 (py_str w) = None"
      using nn clean_col_None[OF cl generated_py_str] by blast
    show "\<forall>w \<in> set ?S. py_str w \<notin> set (col_children (scene_collection d0))"
      using nn clean_scene[OF cl] generated_py_str by blast
    show "\<forall>n \<in> size_names ?S ?S. col d0 n = None"
      using clean_col_None[OF cl generated_size_name] by (auto simp: size_names_def)
  qed
  then obtain d1 hm where h: "for_each (build_width ?S) ?S (d0, Map.empty) = Inr (d1, hm)"
    and c1: "col d1 = (\<lambda>n. if n \<in> py_str ` set ?S
                           then Some (width_collection_of ?S (py_int n))
                           else if n \<in> size_names ?S ?S then Some empty_collection
                           else col d0 n)"
    and hm: "hm = (\<lambda>p. if fst p \<in> set ?S \<and> snd p \<in> set ?S
                         then Some (size_name (fst p) (snd p)) else Map.empty p)"
    and s1: "scene_collection d1
               = (scene_collection d0)\<lparr>col_children := col_children (scene_collection d0) @ map py_str ?S\<rparr>"
    and o1: "objects d1 = objects d0" and m1: "meshes d1 = meshes d0"
    by blast
  have pair_not_width: "pair_name p \<notin> py_str ` set ?S" for p
    using nn size_name_neq_py_str by (auto simp: pair_name_def)
  have c1w: "col d1 (py_str w) = Some (width_collection_of ?S w)" if "w \<in> set ?S" for w
    using that nn by (simp add: c1 py_int_py_str)
  have c1p: "col d1 (pair_name p) = Some empty_collection" if "p \<in> set size_pairs" for p
    using that pair_not_width by (simp add: c1 size_names_pairs)
  have c1o: "col d1 n = col d0 n" if "n \<notin> py_str ` set ?S \<union> pair_name ` set size_pairs" for n
    using that by (simp add: c1 size_names_pairs)
  have l0: "links_ok d0" by (rule clean_links_ok[OF cl])
  have l1: "links_ok d1"
    unfolding links_ok_def
  proof (intro conjI allI impI)
    show "set (col_objects (scene_collection d1)) \<subseteq> fst ` set (objects d1)"
      using l0 by (simp add: links_ok_def s1 o1)
    fix n c assume "col d1 n = Some c"
    then have "c = width_collection_of ?S (py_int n) \<or> c = empty_collection \<or> col d0 n = Some c"
      by (auto simp: c1 split: if_splits)
    moreover have "set (col_objects c) \<subseteq> fst ` set (objects d0)" if "col d0 n = Some c"
      using l0 that unfolding links_ok_def by blast
    ultimately show "set (col_objects c) \<subseteq> fst ` set (objects d1)"
      unfolding o1 by (auto simp: width_collection_of_def empty_collection_def)
  qed
  \<comment> \<open>the planes\<close>
  have "\<exists>d2 N. create_all hm (map pair_metres size_pairs) d1 = Inr d2 \<and> created d1 size_pairs d2 N"
  proof (rule create_all_effect[OF ppos pdist _ _ l1])
    show "\<forall>p \<in> set size_pairs. hm p = Some (pair_name p)"
      by (auto simp: hm set_size_pairs pair_name_def)
    show "\<forall>p \<in> set size_pairs. col d1 (pair_name p) = Some empty_collection"
      using c1p by blast
  qed
  then obtain d2 N where cr: "create_all hm PLANE_SIZE_PAIRS d1 = Inr d2"
    and crd: "created d1 size_pairs d2 N"
    by (auto simp: size_pairs_metres)
  note C = createdD[OF crd]
  have c2w: "col d2 (py_str w) = Some (width_collection_of ?S w)" if "w \<in> set ?S" for w
  proof -
    have "py_str w \<notin> pair_name ` set size_pairs"
    proof
      assume "py_str w \<in> pair_name ` set size_pairs"
      then obtain p where "py_str w = pair_name p" by (rule imageE)
      then have "pair_name p \<in> py_str ` set ?S" using that by (metis imageI)
      with pair_not_width show False by blast
    qed
    with C(2) have "col d2 (py_str w) = col d1 (py_str w)" by simp
    then show ?thesis by (simp add: c1w[OF that])
  qed
  \<comment> \<open>the sorting\<close>
  have ho: "heights_in_order d2 (py_str w)" if w: "w \<in> set ?S" for w
    unfolding heights_in_order_def
  proof (rule exI[of _ "width_collection_of ?S w"], intro conjI ballI)
    show "col d2 (py_str w) = Some (width_collection_of ?S w)" by (rule c2w[OF w])
    have w0: "0 \<le> w" using nn w by blast
    have "inj_on (size_name w) (set ?S)"
      using size_name_inj[OF w0 _ w0] nn by (auto simp: inj_on_def)
    then show "distinct (col_children (width_collection_of ?S w))"
      using dist by (simp add: width_collection_of_def distinct_map)
    show "sorted_alnum (col_children (width_collection_of ?S w))
          = Inr (col_children (width_collection_of ?S w))"
      using height_names_in_order[OF asc w0] by (simp add: width_collection_of_def)
    fix sn assume "sn \<in> set (col_children (width_collection_of ?S w))"
    then obtain h where h: "h \<in> set ?S" and sn: "sn = size_name w h"
      by (auto simp: width_collection_of_def)
    define p where "p = (w, h)"
    have p: "p \<in> set size_pairs" and pn: "pair_name p = sn"
      using w h by (simp_all add: p_def set_size_pairs pair_name_def sn)
    from C(10) p obtain s t where a: "fst (N p) = pair_name p @ s"
      and b: "snd (N p) = ''UCX_'' @ pair_name p @ t" by blast
    have "0 \<le> fst p" using w0 by (simp add: p_def)
    from pair_objects_in_order[OF this a b]
    have "objects_in_order \<lparr>col_children = [], col_objects = [fst (N p), snd (N p)]\<rparr>" .
    moreover have "col d2 sn
        = Some \<lparr>col_children = [], col_objects = [fst (N p), snd (N p)]\<rparr>"
      using C(1) p pn by auto
    ultimately show "\<exists>cs. col d2 sn = Some cs \<and> objects_in_order cs" by blast
    show "sn \<noteq> py_str w" using size_name_neq_py_str[OF w0] by (simp add: sn)
  qed
  have "\<exists>d'. sorting d2 = Inr d' \<and> col d' = col d2
            \<and> scene_collection d' = scene_collection d2 \<and> same_data d2 d'"
  proof (rule sorting_in_order)
    show "col_children (scene_collection d2)
          = col_children (scene_collection d0) @ map py_str ?S"
      by (simp add: C(3) s1)
    show "\<forall>n \<in> set (col_children (scene_collection d0)). \<not> isdigit n"
      using clean_scene[OF cl] by (auto simp: generated_name_def)
    show "\<forall>n \<in> set (map py_str ?S). isdigit n"
      using nn isdigit_py_str by auto
    have "inj_on py_str (set ?S)" using py_str_inj nn by (auto simp: inj_on_def)
    then show "distinct (map py_str ?S)" using dist by (simp add: distinct_map)
    show "py_sorted int_key_less (map py_str ?S) = map py_str ?S"
      by (rule width_names_in_order[OF asc])
    show "\<forall>wn \<in> set (map py_str ?S). heights_in_order d2 wn"
      using ho by auto
  qed
  then obtain d' where srt: "sorting d2 = Inr d'" and c': "col d' = col d2"
    and s': "scene_collection d' = scene_collection d2" and sd: "same_data d2 d'"
    by blast
  have ob': "objects d' = objects d2" and me': "meshes d' = meshes d2"
    using sd by (simp_all add: same_data_def)
  have run: "generate d = Inr d'"
    by (simp add: generate_def build_hierarchy_def d0_def[symmetric] h cr srt)
  have no: "new_objects d0 d' = new_objects d1 d2"
    by (simp add: new_objects_def ob' o1)
  have om: "object_mesh d' = object_mesh d2"
    unfolding object_mesh_def ob' me' by (rule refl)
  have "generated d0 d' N"
    unfolding generated_def
  proof (intro conjI)
    show "scene_collection d'
       = (scene_collection d0)
           \<lparr>col_children := col_children (scene_collection d0) @ map py_str ?S\<rparr>"
      by (simp add: s' C(3) s1)
    show "\<forall>w \<in> set ?S. col d' (py_str w) = Some (width_collection_of ?S w)"
      using c2w by (simp add: c')
    show "\<forall>p \<in> set size_pairs. col d' (pair_name p)
                     = Some \<lparr>col_children = [], col_objects = [fst (N p), snd (N p)]\<rparr>"
      using C(1) by (simp add: c')
    show "\<forall>n. n \<notin> py_str ` set ?S \<union> pair_name ` set size_pairs \<longrightarrow> col d' n = col d0 n"
      using C(2) c1o by (simp add: c')
    show "objects d' = objects d0 @ new_objects d0 d'"
      using C(4) by (simp add: no ob' o1)
    show "map fst (new_objects d0 d') = concat (map (\<lambda>p. [fst (N p), snd (N p)]) size_pairs)"
      using C(5) by (simp add: no)
    show "\<forall>x \<in> set (new_objects d0 d'). obj_type (snd x) = ''MESH''"
      using C(6) by (simp add: no)
    show "distinct (map fst (new_objects d0 d'))" using C(7) by (simp add: no)
    show "fst ` set (new_objects d0 d') \<inter> fst ` set (objects d0) = {}"
      using C(8) by (simp add: no o1)
    show "take (length (meshes d0)) (meshes d') = meshes d0"
      using C(9) by (simp add: me' m1)
    show "\<forall>p \<in> set size_pairs.
           (\<exists>s. fst (N p) = pair_name p @ s)
           \<and> (\<exists>s. snd (N p) = ''UCX_'' @ pair_name p @ s)
           \<and> object_mesh d' (fst (N p)) = Some (expected_mesh p)
           \<and> object_mesh d' (snd (N p)) = Some (expected_quad p)"
      using C(10) by (simp add: om)
    show "(\<forall>p \<in> set size_pairs. pair_name p \<notin> fst ` set (objects d0)
                       \<and> ''UCX_'' @ pair_name p \<notin> fst ` set (objects d0))
          \<longrightarrow> (\<forall>p \<in> set size_pairs. N p = (pair_name p, ''UCX_'' @ pair_name p))"
      using C(11) by (simp add: o1)
    show "links_ok d'"
      using C(12) by (simp add: links_ok_def c' s' ob')
  qed
  with run show ?thesis unfolding d0_def by blast
qed

subsection \<open>Sorting the objects of a subcollection\<close>

lemma set_insort_lt [simp]: "set (insort_lt lt x ys) = insert x (set ys)"
  by (induction ys) auto

lemma distinct_insort_lt [simp]:
  "distinct (insort_lt lt x ys) \<longleftrightarrow> x \<notin> set ys \<and> distinct ys"
  by (induction ys) auto

lemma foldl_insort_lt:
  "set (foldl (\<lambda>acc x. insort_lt lt x acc) acc xs) = set acc \<union> set xs
   \<and> (distinct (foldl (\<lambda>acc x. insort_lt lt x acc) acc xs) \<longleftrightarrow> distinct (acc @ xs))"
  by (induction xs arbitrary: acc) auto

lemma set_py_sorted [simp]: "set (py_sorted lt xs) = set xs"
  using foldl_insort_lt[of lt "[]" xs] by (simp add: py_sorted_def)

lemma distinct_py_sorted [simp]: "distinct (py_sorted lt xs) \<longleftrightarrow> distinct xs"
  using foldl_insort_lt[of lt "[]" xs] by (simp add: py_sorted_def)

lemma sort_objects_effect:
  assumes "col d s = Some c" and "distinct (col_objects c)"
  shows "\<exists>d'. sort_objects s d = Inr d'
            \<and> col d' = (col d)(s \<mapsto> c\<lparr>col_objects := py_sorted str_less (col_objects c)\<rparr>)
            \<and> scene_collection d' = scene_collection d \<and> same_data d d'"
proof -
  let ?xs = "py_sorted str_less (col_objects c)"
  define c0 where "c0 = c\<lparr>col_objects := []\<rparr>"
  from unlink_all_objects[OF assms(1) refl assms(2)]
  obtain d1 where u: "for_each (objects_unlink (Collection s)) (col_objects c) d = Inr d1"
    and c1: "col d1 = (col d)(s \<mapsto> c0)"
    and f1: "scene_collection d1 = scene_collection d" "same_data d d1"
    unfolding c0_def by blast
  have "\<exists>d'. for_each (objects_link (Collection s)) ?xs d1 = Inr d'
            \<and> col d' = (col d1)(s \<mapsto> c0\<lparr>col_objects := col_objects c0 @ ?xs\<rparr>)
            \<and> scene_collection d' = scene_collection d1 \<and> same_data d1 d'"
    by (rule link_all_objects) (simp_all add: c1 c0_def assms(2))
  then obtain d2 where l: "for_each (objects_link (Collection s)) ?xs d1 = Inr d2"
    and c2: "col d2 = (col d1)(s \<mapsto> c0\<lparr>col_objects := col_objects c0 @ ?xs\<rparr>)"
    and f2: "scene_collection d2 = scene_collection d1" "same_data d1 d2"
    by blast
  have "map_of (collections d) s = Some c" using assms(1) by (simp add: col_def)
  then have "sort_objects s d = Inr d2"
    by (simp only: sort_objects_def option.case Let_def u py_bind_Inr l)
  moreover have "col d2 = (col d)(s \<mapsto> c\<lparr>col_objects := ?xs\<rparr>)"
    by (simp add: c2 c1 c0_def)
  moreover have "same_data d d2" by (rule same_data_trans[OF f1(2) f2(2)])
  ultimately show ?thesis using f1 f2 by simp
qed

lemma is_mesh_same_data: "same_data d d' \<Longrightarrow> is_mesh d' = is_mesh d"
  by (rule ext) (simp add: is_mesh_def same_data_def)



subsection \<open>The order of the collections after a run\<close>

lemma generated_width_names:
  assumes "clean d0" and "generated d0 d' N"
  shows "filter isdigit (col_children (scene_collection d')) = map py_str PLANE_SIZES_CM"
proof -
  have nn: "\<forall>s \<in> set PLANE_SIZES_CM. 0 \<le> s" by (rule ascending_nonneg[OF ascending_sizes])
  have a: "filter isdigit (col_children (scene_collection d0)) = []"
    using clean_scene[OF assms(1)] by (auto simp: filter_empty_conv generated_name_def)
  have b: "filter isdigit (map py_str PLANE_SIZES_CM) = map py_str PLANE_SIZES_CM"
    using nn isdigit_py_str by (simp add: filter_id_conv)
  show ?thesis by (simp add: generatedD(1)[OF assms(2)] a b)
qed



subsection \<open>The objects after a run\<close>

lemma surviving_object:
  assumes "n \<in> fst ` set (objects (cleanup d))"
  shows "\<exists>ob. (n, ob) \<in> set (objects d) \<and> obj_type ob \<noteq> ''MESH''"
proof -
  from assms obtain ob where "(n, ob) \<in> set (objects (cleanup d))" by auto
  then have in_d: "(n, ob) \<in> set (objects d)" and "n \<notin> mesh_names (objects d)"
    by (simp_all add: cleanup_cleaned in_cleaned_objects)
  then have "obj_type ob \<noteq> ''MESH''" unfolding mesh_names_def by blast
  with in_d show ?thesis by blast
qed

lemma distinct_cleanup_objects:
  assumes "well_formed d"
  shows "distinct (map fst (objects (cleanup d)))"
proof -
  have "distinct (map fst (objects d))" using assms by (simp add: well_formed_def)
  then show ?thesis by (simp add: cleanup_cleaned cleaned_def distinct_map_filter)
qed

lemma generated_distinct_objects:
  assumes "distinct (map fst (objects d0))" and "generated d0 d' N"
  shows "distinct (map fst (objects d'))"
proof -
  note G = generatedD[OF assms(2)]
  have "distinct (map fst (objects d0) @ map fst (new_objects d0 d'))"
    using assms(1) G(8) G(9) by (auto simp: image_iff)
  then show ?thesis by (subst G(5)) simp
qed

lemma generated_mesh_objects:
  assumes "clean d0" and "generated d0 d' N"
  shows "filter (\<lambda>(n, ob). obj_type ob = ''MESH'') (objects d') = new_objects d0 d'"
proof -
  note G = generatedD[OF assms(2)]
  have "\<forall>(k, ob) \<in> set (objects d0). obj_type ob \<noteq> ''MESH''"
    using assms(1) by (simp add: clean_def)
  then have a: "filter (\<lambda>(n, ob). obj_type ob = ''MESH'') (objects d0) = []"
    by (auto simp: filter_empty_conv)
  have b: "filter (\<lambda>(n, ob). obj_type ob = ''MESH'') (new_objects d0 d') = new_objects d0 d'"
    using G(7) by (auto simp: filter_id_conv)
  show ?thesis by (subst G(5)) (simp add: a b)
qed

lemma generated_is_mesh:
  assumes "distinct (map fst (objects d0))" and "generated d0 d' N" and "p \<in> set size_pairs"
  shows "is_mesh d' (fst (N p))" and "is_mesh d' (snd (N p))"
proof -
  note G = generatedD[OF assms(2)]
  have dist: "distinct (map fst (objects d'))"
    by (rule generated_distinct_objects[OF assms(1,2)])
  have mesh: "is_mesh d' n" if "n \<in> set (map fst (new_objects d0 d'))" for n
  proof -
    from that obtain ob where ob: "(n, ob) \<in> set (new_objects d0 d')" by auto
    then have "obj_type ob = ''MESH''" using G(7) by auto
    moreover have "(n, ob) \<in> set (objects d')" using ob by (subst G(5)) simp
    then have "map_of (objects d') n = Some ob" using dist by (rule map_of_is_SomeI[rotated])
    ultimately show ?thesis by (simp add: is_mesh_def)
  qed
  have "fst (N p) \<in> set (map fst (new_objects d0 d'))"
    "snd (N p) \<in> set (map fst (new_objects d0 d'))"
    using assms(3) unfolding G(6) by auto
  then show "is_mesh d' (fst (N p))" and "is_mesh d' (snd (N p))"
    using mesh by blast+
qed

lemma well_formed_cluttered: "well_formed cluttered_document"
  by (simp add: well_formed_def cluttered_document_def)

lemma cleanup_cluttered: "cleanup cluttered_document = cluttered_document"
  by (simp add: cleanup_def cluttered_document_def)




subsection \<open>The export of one subcollection\<close>

lemma length_split_on: "c \<in> set s \<Longrightarrow> 2 \<le> length (split_on c s)"
proof (induction s)
  case Nil
  then show ?case by simp
next
  case (Cons a s)
  have ne: "split_on c t \<noteq> []" for t by (induction t) (auto split: list.splits)
  show ?case
  proof (cases "a = c")
    case True
    then show ?thesis using ne[of s] by (cases "split_on c s") auto
  next
    case False
    with Cons show ?thesis by (auto split: list.splits)
  qed
qed

lemma split_on_second:
  "c \<in> set s \<Longrightarrow> py_index (split_on c s) 1 = Inr (split_on c s ! 1)"
  using length_split_on[of c s] by (simp add: py_index_def)

lemma active_object_exists:
  assumes "xs \<noteq> []"
  shows "\<exists>a. (case find P xs of Some ob \<Rightarrow> Inr ob | None \<Rightarrow> py_index xs 0) = Inr a"
  using assms by (cases "find P xs") (auto simp: py_index_def)



end
